theory Spec2Isabelle
  imports Complex_Main
begin

section \<open>The stochastic sequence generator of \<^verbatim>\<open>sequences/random_markov.py\<close>\<close>

text \<open>
  The module defines one class, \<^verbatim>\<open>MarkovChain\<close>, and one function, \<^verbatim>\<open>markov\<close>, which builds
  a random transition matrix, draws one labelled binary operator per state, and then extends
  a copy of the seed list by repeatedly applying the operator of the current state to the
  last two values.

  Conventions of the embedding:
  \<^item> Python integers are \<^typ>\<open>int\<close>; Python floats are idealised as \<^typ>\<open>real\<close> (exact
    arithmetic, no rounding).
  \<^item> Exceptions are values of \<open>error\<close>; a computation returns \<open>Inl e\<close> when the Python
    raises \<open>e\<close>.
  \<^item> The two list objects that the caller can observe, \<^verbatim>\<open>initial_values\<close> and the returned
    \<^verbatim>\<open>sequence\<close>, live in an explicit heap and are handled through references, so that
    aliasing between them is visible.
  \<^item> The process-wide generator of the \<^verbatim>\<open>random\<close> module is a tape of natural numbers
    with a read position; every primitive draw reads one cell.
  \<^item> A \<^verbatim>\<open>print\<close> call is modelled by the formatting of its arguments, which may raise;
    the text written is not recorded. The two listings printed before the loop format
    floats with \<^verbatim>\<open>.3f\<close>, small indices and strings, which cannot raise, and are left out.
    The line printed at the end of each loop iteration formats integers of the sequence
    and is part of the loop body.
  \<^item> The values of the sequence are Python integers, as in the call at the end of the
    module; seeds of other numeric types are outside the embedding.
\<close>

subsection \<open>Errors, the world, and computations\<close>

datatype error = ZeroDivisionError | IndexError | ValueError

type_synonym ref = nat

record world =
  heap :: "int list list"
  tape :: "nat \<Rightarrow> nat"
  drawn :: nat

type_synonym 'a comp = "world \<Rightarrow> (error + 'a) \<times> world"

definition returns :: "'a \<Rightarrow> 'a comp" where
  "returns x w = (Inr x, w)"

definition raises :: "error \<Rightarrow> 'a comp" where
  "raises e w = (Inl e, w)"

definition lift_c :: "error + 'a \<Rightarrow> 'a comp" where
  "lift_c r w = (r, w)"

definition bind_c :: "'a comp \<Rightarrow> ('a \<Rightarrow> 'b comp) \<Rightarrow> 'b comp" where
  "bind_c m f w = (case m w of (r, w') \<Rightarrow> (case r of Inl e \<Rightarrow> (Inl e, w') | Inr x \<Rightarrow> f x w'))"

definition bind_e :: "error + 'a \<Rightarrow> ('a \<Rightarrow> error + 'b) \<Rightarrow> error + 'b" where
  "bind_e r f = (case r of Inl e \<Rightarrow> Inl e | Inr x \<Rightarrow> f x)"

text \<open>A \<^verbatim>\<open>for\<close> loop over a list of indices, threading the loop-carried value.\<close>

fun for_each :: "'i list \<Rightarrow> ('i \<Rightarrow> 's \<Rightarrow> 's comp) \<Rightarrow> 's \<Rightarrow> 's comp" where
  "for_each [] body s = returns s"
| "for_each (i # rest) body s = bind_c (body i s) (for_each rest body)"

text \<open>A list comprehension whose element expression may raise.\<close>

fun map_e :: "('a \<Rightarrow> error + 'b) \<Rightarrow> 'a list \<Rightarrow> error + 'b list" where
  "map_e f [] = Inr []"
| "map_e f (x # xs) = bind_e (f x) (\<lambda>y. bind_e (map_e f xs) (\<lambda>ys. Inr (y # ys)))"

subsection \<open>Python primitives\<close>

definition py_range :: "int \<Rightarrow> int \<Rightarrow> int list" where
  "py_range a b = [a..b - 1]"

text \<open>
  Subscripting: a position \<open>i\<close> with \<open>0 \<le> i < len\<close> is read directly, a position with
  \<open>-len \<le> i < 0\<close> counts from the end, and every other position raises.
\<close>

definition py_index :: "'a list \<Rightarrow> int \<Rightarrow> error + 'a" where
  "py_index xs i =
     (if 0 \<le> i \<and> i < int (length xs) then Inr (xs ! nat i)
      else if i < 0 \<and> - int (length xs) \<le> i then Inr (xs ! nat (int (length xs) + i))
      else Inl IndexError)"

definition py_setitem :: "'a list \<Rightarrow> int \<Rightarrow> 'a \<Rightarrow> error + 'a list" where
  "py_setitem xs i v =
     (if 0 \<le> i \<and> i < int (length xs) then Inr (xs[nat i := v])
      else if i < 0 \<and> - int (length xs) \<le> i then Inr (xs[nat (int (length xs) + i) := v])
      else Inl IndexError)"

text \<open>Floor division, remainder and true division raise on a zero divisor.\<close>

definition py_floordiv :: "int \<Rightarrow> int \<Rightarrow> error + int" where
  "py_floordiv a b = (if b \<noteq> 0 then Inr (a div b) else Inl ZeroDivisionError)"

definition py_mod :: "int \<Rightarrow> int \<Rightarrow> error + int" where
  "py_mod a b = (if b \<noteq> 0 then Inr (a mod b) else Inl ZeroDivisionError)"

definition py_truediv :: "real \<Rightarrow> real \<Rightarrow> error + real" where
  "py_truediv a b = (if b \<noteq> 0 then Inr (a / b) else Inl ZeroDivisionError)"

function str_nat :: "nat \<Rightarrow> string" where
  "str_nat n = (if n < 10 then [''0123456789'' ! n]
                else str_nat (n div 10) @ [''0123456789'' ! (n mod 10)])"
  by pat_completeness auto
termination
  by (relation "measure id") auto

declare str_nat.simps [simp del]

definition str :: "int \<Rightarrow> string" where
  "str i = (if i < 0 then CHR ''-'' # str_nat (nat (- i)) else str_nat (nat i))"

text \<open>
  Conversion of an integer to text, as \<^verbatim>\<open>str\<close>, \<^verbatim>\<open>repr\<close> and the fields of an f-string
  do it: CPython (3.11, default settings) raises \<^verbatim>\<open>ValueError\<close> when the integer has more
  than 4300 decimal digits. The constants formatted into the labels of the synthesized
  operators have one digit, so \<open>str\<close> is used for them directly.
\<close>

definition int_max_str_digits :: nat where
  "int_max_str_digits = 4300"

definition py_str :: "int \<Rightarrow> error + string" where
  "py_str i =
     (if int_max_str_digits < length (str_nat (nat \<bar>i\<bar>)) then Inl ValueError else Inr (str i))"

fun join_comma :: "string list \<Rightarrow> string" where
  "join_comma [] = []"
| "join_comma [s] = s"
| "join_comma (s # t # rest) = s @ '', '' @ join_comma (t # rest)"

definition py_repr_list :: "int list \<Rightarrow> error + string" where
  "py_repr_list xs = bind_e (map_e py_str xs) (\<lambda>parts. Inr (''['' @ join_comma parts @ '']''))"

text \<open>The slice \<^verbatim>\<open>xs[i:]\<close>; a negative start counts from the end and is clipped at 0.\<close>

definition py_slice_from :: "'a list \<Rightarrow> int \<Rightarrow> 'a list" where
  "py_slice_from xs i =
     drop (nat (if i < 0 then max 0 (int (length xs) + i) else i)) xs"

subsubsection \<open>List objects in the heap\<close>

definition list_copy :: "ref \<Rightarrow> ref comp" where
  "list_copy r w = (Inr (length (heap w)), w\<lparr>heap := heap w @ [heap w ! r]\<rparr>)"

definition list_append :: "ref \<Rightarrow> int \<Rightarrow> unit comp" where
  "list_append r v w = (Inr (), w\<lparr>heap := (heap w)[r := heap w ! r @ [v]]\<rparr>)"

definition list_index :: "ref \<Rightarrow> int \<Rightarrow> int comp" where
  "list_index r i w = (py_index (heap w ! r) i, w)"

definition list_slice_from :: "ref \<Rightarrow> int \<Rightarrow> int list comp" where
  "list_slice_from r i w = (Inr (py_slice_from (heap w ! r) i), w)"

subsection \<open>The \<^verbatim>\<open>random\<close> module\<close>

text \<open>
  The library is not part of the repository; it is modelled after its documented behaviour
  and the CPython algorithms. One cell of the tape stands for one primitive draw:
  \<^verbatim>\<open>random()\<close> yields a multiple of \<open>2\<^sup>-\<^sup>5\<^sup>3\<close> in \<open>[0,1)\<close>, and the internal
  \<^verbatim>\<open>_randbelow(n)\<close> yields a number below \<open>n\<close>.
\<close>

definition getrand :: "nat comp" where
  "getrand w = (Inr (tape w (drawn w)), w\<lparr>drawn := Suc (drawn w)\<rparr>)"

definition unit_float :: "nat \<Rightarrow> real" where
  "unit_float d = real (d mod 2 ^ 53) / 2 ^ 53"

definition random_random :: "real comp" where
  "random_random = bind_c getrand (\<lambda>d. returns (unit_float d))"

definition randbelow :: "nat \<Rightarrow> nat comp" where
  "randbelow n = bind_c getrand (\<lambda>d. returns (d mod n))"

definition random_randint :: "int \<Rightarrow> int \<Rightarrow> int comp" where
  "random_randint a b =
     (if b < a then raises ValueError
      else bind_c (randbelow (nat (b - a + 1))) (\<lambda>k. returns (a + int k)))"

text \<open>
  \<^verbatim>\<open>random.sample\<close>, for a population this small, copies it into a pool and \<open>k\<close> times
  picks a position below the number of live entries, takes that entry and moves the last
  live entry into the hole.
\<close>

fun sample_loop :: "'a list \<Rightarrow> nat \<Rightarrow> 'a list comp" where
  "sample_loop pool 0 = returns []"
| "sample_loop pool (Suc k) =
     bind_c (randbelow (length pool)) (\<lambda>j.
     bind_c (sample_loop (butlast (pool[j := last pool])) k) (\<lambda>rest.
     returns (pool ! j # rest)))"

definition random_sample :: "'a list \<Rightarrow> int \<Rightarrow> 'a list comp" where
  "random_sample population k =
     (if \<not> (0 \<le> k \<and> k \<le> int (length population)) then raises ValueError
      else sample_loop population (nat k))"

fun accumulate_from :: "real \<Rightarrow> real list \<Rightarrow> real list" where
  "accumulate_from acc [] = []"
| "accumulate_from acc (x # xs) = (acc + x) # accumulate_from (acc + x) xs"

definition accumulate :: "real list \<Rightarrow> real list" where
  "accumulate ws = accumulate_from 0 ws"

function bisect_right :: "real list \<Rightarrow> real \<Rightarrow> nat \<Rightarrow> nat \<Rightarrow> nat" where
  "bisect_right a x lo hi =
     (if lo < hi
      then (let mid = (lo + hi) div 2
            in if x < a ! mid then bisect_right a x lo mid else bisect_right a x (mid + 1) hi)
      else lo)"
  by pat_completeness auto
termination
  by (relation "measure (\<lambda>(a, x, lo, hi). hi - lo)") auto

declare bisect_right.simps [simp del]

text \<open>\<^verbatim>\<open>random.choices(population, weights)\<close> with the default \<open>k = 1\<close>.\<close>

definition random_choices :: "'a list \<Rightarrow> real list \<Rightarrow> 'a list comp" where
  "random_choices population weights =
     (let n = length population; cum_weights = accumulate weights
      in if length cum_weights \<noteq> n then raises ValueError
         else bind_c (lift_c (py_index cum_weights (- 1))) (\<lambda>total.
              if total \<le> 0 then raises ValueError
              else bind_c random_random (\<lambda>u.
                   bind_c (lift_c (py_index population
                             (int (bisect_right cum_weights (u * total) 0 (n - 1))))) (\<lambda>x.
                   returns [x]))))"

subsection \<open>\<^verbatim>\<open>class MarkovChain\<close>\<close>

type_synonym operator = "int \<Rightarrow> int \<Rightarrow> error + int"

record MarkovChain =
  transition_matrix :: "real list list"
  functions_matrix :: "operator list"
  function_names :: "string list"
  state :: int

text \<open>
  \<^verbatim>\<open>__init__\<close> stores its arguments. \<^verbatim>\<open>markov\<close> always passes \<^verbatim>\<open>function_names\<close>, so the
  branch that derives names by source inspection is not reached from it and is not modelled.
\<close>

definition MarkovChain_init ::
    "real list list \<Rightarrow> operator list \<Rightarrow> string list \<Rightarrow> int \<Rightarrow> MarkovChain" where
  "MarkovChain_init tm fm names st =
     \<lparr>transition_matrix = tm, functions_matrix = fm, function_names = names, state = st\<rparr>"

definition update_state :: "MarkovChain \<Rightarrow> MarkovChain comp" where
  "update_state mc =
     bind_c (lift_c (py_index (transition_matrix mc) (state mc))) (\<lambda>probabilities.
     bind_c (random_choices (py_range 0 (int (length probabilities))) probabilities) (\<lambda>chosen.
     bind_c (lift_c (py_index chosen 0)) (\<lambda>next_state.
     returns (mc\<lparr>state := next_state\<rparr>))))"

subsection \<open>\<^verbatim>\<open>markov\<close>\<close>

subsubsection \<open>The transition matrix (lines 83 to 96)\<close>

definition build_row :: "int \<Rightarrow> int \<Rightarrow> real list comp" where
  "build_row num_states i =
     bind_c (for_each (py_range 0 num_states)
               (\<lambda>_ row. bind_c random_random (\<lambda>u. returns (row @ [u]))) []) (\<lambda>row.
     bind_c (lift_c (py_index row i)) (\<lambda>d.
     bind_c (lift_c (py_setitem row i (d * 0.2))) (\<lambda>row.
     let row_sum = sum_list row
     in lift_c (map_e (\<lambda>p. py_truediv p row_sum) row))))"

definition build_transition_matrix :: "int \<Rightarrow> real list list comp" where
  "build_transition_matrix num_states =
     for_each (py_range 0 num_states)
       (\<lambda>i tm. bind_c (build_row num_states i) (\<lambda>row. returns (tm @ [row]))) []"

subsubsection \<open>The operator pool and its sampling (lines 107 to 146)\<close>

definition operation_pool :: "(operator \<times> string) list" where
  "operation_pool =
     [(\<lambda>x y. Inr (x + y), ''x + y''),
      (\<lambda>x y. Inr (x - y), ''x - y''),
      (\<lambda>x y. Inr (y - x), ''y - x''),
      (\<lambda>x y. Inr (x + y + 1), ''x + y + 1''),
      (\<lambda>x y. Inr (x - y + 1), ''x - y + 1''),
      (\<lambda>x y. Inr \<bar>x - y\<bar>, ''abs(x - y)''),
      (\<lambda>x y. py_floordiv (x + y) 2, ''(x + y) // 2''),
      (\<lambda>x y. bind_e (py_mod (x - y) 2) (\<lambda>m.
                if m = 0 then py_floordiv (x - y) 2 else py_floordiv (x - y + 1) 2),
       ''(x - y) // 2''),
      (\<lambda>x y. bind_e (py_mod (y - x) 2) (\<lambda>m.
                if m = 0 then py_floordiv (y - x) 2 else py_floordiv (y - x + 1) 2),
       ''(y - x) // 2''),
      (\<lambda>x y. Inr (max x y), ''max(x, y)''),
      (\<lambda>x y. Inr (min x y), ''min(x, y)''),
      (\<lambda>x y. Inr (x * 2), ''x * 2''),
      (\<lambda>x y. Inr (y * 2), ''y * 2''),
      (\<lambda>x y. Inr ((x + y) * 2), ''(x + y) * 2''),
      (\<lambda>x y. py_floordiv x (if y \<noteq> 0 then y else 1), ''x // y''),
      (\<lambda>x y. py_floordiv y (if x \<noteq> 0 then x else 1), ''y // x'')]"

text \<open>The body of the loop that adds variations with random constants (lines 143 to 146).\<close>

definition add_variation ::
    "int \<Rightarrow> operator list \<times> string list \<Rightarrow> (operator list \<times> string list) comp" where
  "add_variation i = (\<lambda>(functions_matrix, function_names).
     bind_c (random_randint 1 5) (\<lambda>c.
     returns (functions_matrix @ [\<lambda>x y. Inr (x + y + c)],
              function_names @ [''x + y + '' @ str c])))"

definition select_operations :: "int \<Rightarrow> (operator list \<times> string list) comp" where
  "select_operations num_states =
     bind_c (random_sample operation_pool (min num_states (int (length operation_pool))))
       (\<lambda>selected_operations.
     let functions_matrix = map fst selected_operations;
         function_names = map snd selected_operations
     in if num_states > int (length operation_pool)
        then for_each (py_range 0 (num_states - int (length operation_pool))) add_variation
               (functions_matrix, function_names)
        else returns (functions_matrix, function_names))"

subsubsection \<open>The recurrence loop (lines 163 to 174)\<close>

text \<open>The text of the line printed at the end of an iteration (lines 171 to 173).\<close>

definition step_line :: "int \<Rightarrow> MarkovChain \<Rightarrow> string \<Rightarrow> int list \<Rightarrow> error + string" where
  "step_line step markov_chain function_name last_two =
     bind_e (py_str step) (\<lambda>s_step.
     bind_e (py_str (state markov_chain)) (\<lambda>s_state.
     bind_e (py_repr_list last_two) (\<lambda>s_sequence.
     Inr (''Step '' @ s_step @ '': State='' @ s_state @ '', Function='' @ function_name @
          '', Sequence='' @ s_sequence))))"

text \<open>
  The loop body (lines 165 to 173): look up the operator and its name at the current
  state, append the operator's value on the last two elements, move to the next state,
  and print the line.
\<close>

definition markov_step :: "ref \<Rightarrow> int \<Rightarrow> MarkovChain \<Rightarrow> MarkovChain comp" where
  "markov_step sequence step markov_chain =
     bind_c (lift_c (py_index (functions_matrix markov_chain) (state markov_chain))) (\<lambda>function.
     bind_c (lift_c (py_index (function_names markov_chain) (state markov_chain))) (\<lambda>function_name.
     bind_c (list_index sequence (- 1)) (\<lambda>a.
     bind_c (list_index sequence (- 2)) (\<lambda>b.
     bind_c (lift_c (function a b)) (\<lambda>v.
     bind_c (list_append sequence v) (\<lambda>_.
     bind_c (update_state markov_chain) (\<lambda>markov_chain.
     bind_c (list_slice_from sequence (- 2)) (\<lambda>last_two.
     bind_c (lift_c (step_line step markov_chain function_name last_two)) (\<lambda>line.
     returns markov_chain)))))))))"

definition markov :: "ref \<Rightarrow> int \<Rightarrow> int \<Rightarrow> int \<Rightarrow> ref comp" where
  "markov initial_values steps initial_state num_states =
     bind_c (build_transition_matrix num_states) (\<lambda>transition_matrix.
     bind_c (select_operations num_states) (\<lambda>(functions_matrix, function_names).
     let markov_chain =
           MarkovChain_init transition_matrix functions_matrix function_names initial_state
     in bind_c (list_copy initial_values) (\<lambda>sequence.
        bind_c (for_each (py_range 1 steps) (markov_step sequence) markov_chain) (\<lambda>_.
        returns sequence))))"

subsection \<open>Predicates used in the statements\<close>

text \<open>A computation preserves \<open>I\<close> when \<open>I\<close> holds after it, whether it returns or raises.\<close>

definition preserves :: "(world \<Rightarrow> bool) \<Rightarrow> 'a comp \<Rightarrow> bool" where
  "preserves I m \<longleftrightarrow> (\<forall>w. I w \<longrightarrow> I (snd (m w)))"

text \<open>The values that \<open>n\<close> consecutive calls of \<^verbatim>\<open>random.random()\<close> return.\<close>

definition drawn_row :: "world \<Rightarrow> nat \<Rightarrow> real list" where
  "drawn_row w n = map (\<lambda>j. unit_float (tape w (drawn w + j))) [0..<n]"

text \<open>A probability vector over \<open>n\<close> states, in exact arithmetic.\<close>

definition stochastic :: "nat \<Rightarrow> real list \<Rightarrow> bool" where
  "stochastic n row \<longleftrightarrow> length row = n \<and> list_all (\<lambda>p. 0 \<le> p \<and> p \<le> 1) row \<and> sum_list row = 1"

text \<open>Concrete worlds used to run the program.\<close>

definition zero_world :: world where
  "zero_world = \<lparr>heap = [[2, 3]], tape = (\<lambda>_. 0), drawn = 0\<rparr>"

definition fib_world :: world where
  "fib_world = \<lparr>heap = [[2, 3]], tape = (\<lambda>_. 16), drawn = 0\<rparr>"

definition single_world :: world where
  "single_world = \<lparr>heap = [[5]], tape = (\<lambda>_. 16), drawn = 0\<rparr>"

text \<open>A chain with one state whose operator is the subtraction \<^verbatim>\<open>x - y\<close> of the pool.\<close>

definition sub_chain :: MarkovChain where
  "sub_chain = MarkovChain_init [[1]] [\<lambda>x y. Inr (x - y)] [''x - y''] 0"

definition sub_world :: world where
  "sub_world = \<lparr>heap = [[2, 5]], tape = (\<lambda>_. 16), drawn = 0\<rparr>"

text \<open>The constants that \<open>k\<close> consecutive calls of \<^verbatim>\<open>random.randint(1, 5)\<close> return.\<close>

definition extra_constants :: "world \<Rightarrow> nat \<Rightarrow> int list" where
  "extra_constants w k = map (\<lambda>j. 1 + int (tape w (drawn w + j) mod 5)) [0..<k]"

text \<open>The labels that \<^verbatim>\<open>markov\<close> binds to the states, in state order.\<close>

definition selected_names :: "int \<Rightarrow> world \<Rightarrow> string list" where
  "selected_names num_states w =
     (case fst (select_operations num_states w) of Inl e \<Rightarrow> [] | Inr (fm, names) \<Rightarrow> names)"

section \<open>Properties\<close>

subsection \<open>Sequencing\<close>

lemma bind_c_returns [simp]: "bind_c (returns x) f = f x"
  by (rule ext) (simp add: bind_c_def returns_def)

lemma bind_c_raises [simp]: "bind_c (raises e) f = raises e"
  by (rule ext) (simp add: bind_c_def raises_def)

lemma bind_c_lift_Inr [simp]: "bind_c (lift_c (Inr x)) f = f x"
  by (rule ext) (simp add: bind_c_def lift_c_def)

lemma bind_c_lift_Inl [simp]: "bind_c (lift_c (Inl e)) f = raises e"
  by (rule ext) (simp add: bind_c_def lift_c_def raises_def)

lemma bind_c_Inr: "m w = (Inr x, w') \<Longrightarrow> bind_c m f w = f x w'"
  by (simp add: bind_c_def)

lemma bind_c_Inl: "m w = (Inl e, w') \<Longrightarrow> bind_c m f w = (Inl e, w')"
  by (simp add: bind_c_def)

lemma bind_c_eq_Inr:
  "bind_c m f w = (Inr y, w'') \<longleftrightarrow> (\<exists>x w'. m w = (Inr x, w') \<and> f x w' = (Inr y, w''))"
  by (auto simp: bind_c_def split: prod.splits sum.splits)

lemma bind_c_eq_Inl:
  "bind_c m f w = (Inl e, w'') \<longleftrightarrow>
     m w = (Inl e, w'') \<or> (\<exists>x w'. m w = (Inr x, w') \<and> f x w' = (Inl e, w''))"
  by (auto simp: bind_c_def split: prod.splits sum.splits)

lemma preserves_returns [simp]: "preserves I (returns x)"
  by (simp add: preserves_def returns_def)

lemma preserves_raises [simp]: "preserves I (raises e)"
  by (simp add: preserves_def raises_def)

lemma preserves_lift [simp]: "preserves I (lift_c r)"
  by (simp add: preserves_def lift_c_def)

lemma preserves_bind:
  "preserves I m \<Longrightarrow> (\<And>x. preserves I (f x)) \<Longrightarrow> preserves I (bind_c m f)"
  by (auto simp: preserves_def bind_c_def split: prod.splits sum.splits)

lemma preserves_for_each:
  "(\<And>i s. preserves I (body i s)) \<Longrightarrow> preserves I (for_each xs body s)"
  by (induction xs arbitrary: s) (auto intro: preserves_bind)

lemma preservesD: "preserves I m \<Longrightarrow> I w \<Longrightarrow> m w = (r, w') \<Longrightarrow> I w'"
  by (auto simp: preserves_def)

subsection \<open>Random draws\<close>

lemma getrand_eq: "getrand w = (Inr (tape w (drawn w)), w\<lparr>drawn := Suc (drawn w)\<rparr>)"
  by (simp add: getrand_def)

lemma random_random_eq:
  "random_random w = (Inr (unit_float (tape w (drawn w))), w\<lparr>drawn := Suc (drawn w)\<rparr>)"
  by (simp add: random_random_def bind_c_def getrand_def returns_def)

lemma randbelow_eq:
  "randbelow n w = (Inr (tape w (drawn w) mod n), w\<lparr>drawn := Suc (drawn w)\<rparr>)"
  by (simp add: randbelow_def bind_c_def getrand_def returns_def)

lemma unit_float_range: "0 \<le> unit_float d \<and> unit_float d < 1"
  by (simp add: unit_float_def)

lemma unit_float_zero_iff: "unit_float d = 0 \<longleftrightarrow> d mod 2 ^ 53 = 0"
  by (simp add: unit_float_def)

lemma length_py_range: "length (py_range a b) = nat (b - a)"
  by (simp add: py_range_def)

lemma nth_py_range: "k < nat (b - a) \<Longrightarrow> py_range a b ! k = a + int k"
  by (simp add: py_range_def)

lemma set_py_range: "set (py_range a b) = {i. a \<le> i \<and> i < b}"
  by (auto simp: py_range_def)

text \<open>The comprehension \<^verbatim>\<open>[random.random() for _ in range(n)]\<close> reads consecutive cells.\<close>

lemma draw_loop_eq:
  "for_each xs (\<lambda>_ row. bind_c random_random (\<lambda>u. returns (row @ [u]))) acc w =
     (Inr (acc @ map (\<lambda>j. unit_float (tape w (drawn w + j))) [0..<length xs]),
      w\<lparr>drawn := drawn w + length xs\<rparr>)"
proof (induction xs arbitrary: acc w)
  case Nil
  then show ?case by (simp add: returns_def)
next
  case (Cons x xs)
  define body :: "'a \<Rightarrow> real list \<Rightarrow> real list comp"
    where "body = (\<lambda>_ row. bind_c random_random (\<lambda>u. returns (row @ [u])))"
  let ?w1 = "w\<lparr>drawn := Suc (drawn w)\<rparr>"
  have first: "body x acc w = (Inr (acc @ [unit_float (tape w (drawn w))]), ?w1)"
    by (simp add: body_def bind_c_def random_random_eq returns_def)
  have shift: "map (\<lambda>j. unit_float (tape w (drawn w + j))) [0..<Suc (length xs)] =
      unit_float (tape w (drawn w)) # map (\<lambda>j. unit_float (tape w (Suc (drawn w + j)))) [0..<length xs]"
    by (simp add: upt_conv_Cons map_Suc_upt [symmetric] del: upt_Suc)
  have "for_each (x # xs) body acc w = for_each xs body (acc @ [unit_float (tape w (drawn w))]) ?w1"
    using first by (simp add: bind_c_def)
  also have "\<dots> = (Inr (acc @ map (\<lambda>j. unit_float (tape w (drawn w + j))) [0..<length (x # xs)]),
      w\<lparr>drawn := drawn w + length (x # xs)\<rparr>)"
    unfolding body_def Cons.IH by (simp add: shift del: upt_Suc)
  finally show ?case unfolding body_def .
qed

lemma map_e_truediv:
  "map_e (\<lambda>p. py_truediv p s) row =
     (if s = 0 \<and> row \<noteq> [] then Inl ZeroDivisionError else Inr (map (\<lambda>p. p / s) row))"
  by (induction row) (auto simp: py_truediv_def bind_e_def)

subsection \<open>Construction of the transition matrix\<close>

lemma build_row_eq:
  assumes "0 \<le> i" "i < n"
  shows "build_row n i w =
     (let row0 = drawn_row w (nat n);
          row1 = row0[nat i := row0 ! nat i * 0.2];
          s = sum_list row1
      in (if s = 0 then Inl ZeroDivisionError else Inr (map (\<lambda>p. p / s) row1),
          w\<lparr>drawn := drawn w + nat n\<rparr>))"
proof -
  have len: "length (drawn_row w (nat n)) = nat n"
    by (simp add: drawn_row_def)
  have ne: "drawn_row w (nat n) \<noteq> []"
    using assms by (simp add: drawn_row_def)
  show ?thesis
    using assms len ne
    by (simp add: build_row_def draw_loop_eq length_py_range drawn_row_def [symmetric]
        bind_c_def lift_c_def py_index_def py_setitem_def map_e_truediv Let_def)
qed

lemma sum_list_divide: "sum_list (map (\<lambda>p. p / s) xs) = sum_list xs / (s::real)"
  by (induction xs) (simp_all add: add_divide_distrib)

lemma drawn_row_nonneg: "p \<in> set (drawn_row w n) \<Longrightarrow> 0 \<le> p"
  using unit_float_range by (auto simp: drawn_row_def)

lemma stochastic_normalise:
  assumes "\<forall>p\<in>set xs. 0 \<le> (p::real)" "sum_list xs \<noteq> 0"
  shows "stochastic (length xs) (map (\<lambda>p. p / sum_list xs) xs)"
proof -
  have pos: "0 < sum_list xs"
    using assms sum_list_nonneg [of xs] by (simp add: less_le)
  have "p \<le> sum_list xs" if "p \<in> set xs" for p
    using that assms(1) member_le_sum_list by blast
  then show ?thesis
    using assms pos by (auto simp: stochastic_def sum_list_divide list_all_iff)
qed

lemma build_row_result:
  assumes "0 \<le> i" "i < n" "build_row n i w = (r, w')"
  shows "w' = w\<lparr>drawn := drawn w + nat n\<rparr> \<and>
         (r = Inl ZeroDivisionError \<or> (\<exists>row. r = Inr row \<and> stochastic (nat n) row))"
proof -
  define row0 where "row0 = drawn_row w (nat n)"
  define row1 where "row1 = row0[nat i := row0 ! nat i * 0.2]"
  have len: "length row1 = nat n"
    by (simp add: row1_def row0_def drawn_row_def)
  have nonneg: "\<forall>p\<in>set row1. 0 \<le> p"
  proof
    fix p assume "p \<in> set row1"
    then have "p \<in> set row0 \<or> p = row0 ! nat i * 0.2"
      unfolding row1_def using set_update_subset_insert by fastforce
    moreover have "0 \<le> row0 ! nat i"
      using assms by (simp add: row0_def drawn_row_def unit_float_range)
    ultimately show "0 \<le> p"
      using drawn_row_nonneg [of p w "nat n"] by (auto simp: row0_def)
  qed
  have eq: "build_row n i w =
      (if sum_list row1 = 0 then Inl ZeroDivisionError
       else Inr (map (\<lambda>p. p / sum_list row1) row1), w\<lparr>drawn := drawn w + nat n\<rparr>)"
    unfolding build_row_eq [OF assms(1,2)] Let_def row0_def [symmetric] row1_def [symmetric] ..
  show ?thesis
  proof (cases "sum_list row1 = 0")
    case True
    with eq assms(3) show ?thesis by simp
  next
    case False
    from stochastic_normalise [OF nonneg False] len
    have "stochastic (nat n) (map (\<lambda>p. p / sum_list row1) row1)" by simp
    with False eq assms(3) show ?thesis by simp
  qed
qed

lemma matrix_loop_result:
  assumes "\<forall>i\<in>set xs. 0 \<le> i \<and> i < n"
    and "for_each xs (\<lambda>i tm. bind_c (build_row n i) (\<lambda>row. returns (tm @ [row]))) tm w = (r, w')"
  shows "tape w' = tape w \<and> heap w' = heap w \<and>
     (case r of Inl e \<Rightarrow> e = ZeroDivisionError
      | Inr tm' \<Rightarrow> w' = w\<lparr>drawn := drawn w + length xs * nat n\<rparr> \<and>
          (\<exists>rows. tm' = tm @ rows \<and> length rows = length xs \<and>
                  list_all (stochastic (nat n)) rows))"
  using assms
proof (induction xs arbitrary: tm w)
  case Nil
  then show ?case by (auto simp: returns_def)
next
  case (Cons x xs)
  define body :: "int \<Rightarrow> real list list \<Rightarrow> real list list comp"
    where "body = (\<lambda>i tm. bind_c (build_row n i) (\<lambda>row. returns (tm @ [row])))"
  obtain rr w1 where row: "build_row n x w = (rr, w1)"
    by (cases "build_row n x w")
  from Cons.prems(1) have x: "0 \<le> x" "x < n" by simp_all
  from build_row_result [OF x row]
  have w1: "w1 = w\<lparr>drawn := drawn w + nat n\<rparr>"
    and rr: "rr = Inl ZeroDivisionError \<or> (\<exists>row. rr = Inr row \<and> stochastic (nat n) row)"
    by simp_all
  from rr show ?case
  proof
    assume "rr = Inl ZeroDivisionError"
    with row have "for_each (x # xs) body tm w = (Inl ZeroDivisionError, w1)"
      by (simp add: body_def bind_c_def)
    with Cons.prems(2) w1 show ?thesis
      by (auto simp: body_def)
  next
    assume "\<exists>row. rr = Inr row \<and> stochastic (nat n) row"
    then obtain row where rr': "rr = Inr row" and st: "stochastic (nat n) row" by blast
    with row have "for_each (x # xs) body tm w = for_each xs body (tm @ [row]) w1"
      by (simp add: body_def bind_c_def returns_def)
    with Cons.prems(2) have rest: "for_each xs body (tm @ [row]) w1 = (r, w')"
      by (simp add: body_def)
    from Cons.prems(1) have "\<forall>i\<in>set xs. 0 \<le> i \<and> i < n" by simp
    from Cons.IH [OF this rest [unfolded body_def]]
    have ih: "tape w' = tape w1 \<and> heap w' = heap w1 \<and>
       (case r of Inl e \<Rightarrow> e = ZeroDivisionError
        | Inr tm' \<Rightarrow> w' = w1\<lparr>drawn := drawn w1 + length xs * nat n\<rparr> \<and>
          (\<exists>rows. tm' = (tm @ [row]) @ rows \<and> length rows = length xs \<and>
                  list_all (stochastic (nat n)) rows))" .
    show ?thesis
    proof (cases r)
      case (Inl e)
      with ih w1 show ?thesis by simp
    next
      case (Inr tm')
      with ih obtain rows where rows: "tm' = (tm @ [row]) @ rows" "length rows = length xs"
        "list_all (stochastic (nat n)) rows" and w': "w' = w1\<lparr>drawn := drawn w1 + length xs * nat n\<rparr>"
        by auto
      have "tm' = tm @ (row # rows) \<and> length (row # rows) = length (x # xs) \<and>
            list_all (stochastic (nat n)) (row # rows)"
        using rows st by simp
      then have ex: "\<exists>rows. tm' = tm @ rows \<and> length rows = length (x # xs) \<and>
            list_all (stochastic (nat n)) rows" by blast
      have "w' = w\<lparr>drawn := drawn w + length (x # xs) * nat n\<rparr>"
        using w' w1 by (simp add: add.commute add.left_commute)
      with ex Inr ih w1 show ?thesis by simp
    qed
  qed
qed

lemma build_transition_matrix_result:
  assumes "build_transition_matrix n w = (r, w')"
  shows "tape w' = tape w \<and> heap w' = heap w \<and>
     (case r of Inl e \<Rightarrow> e = ZeroDivisionError
      | Inr tm \<Rightarrow> w' = w\<lparr>drawn := drawn w + nat n * nat n\<rparr> \<and> length tm = nat n \<and>
                  list_all (stochastic (nat n)) tm)"
proof -
  have "\<forall>i\<in>set (py_range 0 n). 0 \<le> i \<and> i < n"
    by (simp add: set_py_range)
  from matrix_loop_result [OF this assms [unfolded build_transition_matrix_def]]
  show ?thesis
    by (auto simp: length_py_range split: sum.splits)
qed

lemma drawn_row_zero:
  assumes "\<forall>j<n. tape w (drawn w + j) mod 2 ^ 53 = 0"
  shows "drawn_row w n = replicate n 0"
proof -
  have "map (\<lambda>j. unit_float (tape w (drawn w + j))) [0..<n] = map (\<lambda>j. 0) [0..<n]"
    using assms by (intro map_cong) (simp_all add: unit_float_zero_iff)
  then show ?thesis
    by (simp add: drawn_row_def map_replicate_const)
qed

lemma build_row_zero:
  assumes "0 \<le> i" "i < n" "\<forall>j<nat n. tape w (drawn w + j) mod 2 ^ 53 = 0"
  shows "build_row n i w = (Inl ZeroDivisionError, w\<lparr>drawn := drawn w + nat n\<rparr>)"
proof -
  have "(replicate (nat n) (0::real))[nat i := 0] = replicate (nat n) 0"
    using assms(1,2) by (auto simp: list_eq_iff_nth_eq nth_list_update)
  then show ?thesis
    using assms(1,2)
    by (simp add: build_row_eq drawn_row_zero [OF assms(3)] Let_def sum_list_replicate)
qed

lemma matrix_loop_zero_row:
  assumes "\<forall>i\<in>set xs. 0 \<le> i \<and> i < n"
    and "k < length xs"
    and "\<forall>j<nat n. tape w (drawn w + k * nat n + j) mod 2 ^ 53 = 0"
  shows "fst (for_each xs (\<lambda>i tm. bind_c (build_row n i) (\<lambda>row. returns (tm @ [row]))) tm w)
           = Inl ZeroDivisionError"
  using assms
proof (induction xs arbitrary: tm w k)
  case Nil
  then show ?case by simp
next
  case (Cons x xs)
  define body :: "int \<Rightarrow> real list list \<Rightarrow> real list list comp"
    where "body = (\<lambda>i tm. bind_c (build_row n i) (\<lambda>row. returns (tm @ [row])))"
  from Cons.prems(1) have x: "0 \<le> x" "x < n" by simp_all
  show ?case
  proof (cases k)
    case 0
    with Cons.prems(3) have "\<forall>j<nat n. tape w (drawn w + j) mod 2 ^ 53 = 0" by simp
    from build_row_zero [OF x this] show ?thesis
      by (simp add: bind_c_def)
  next
    case (Suc k')
    obtain rr w1 where row: "build_row n x w = (rr, w1)"
      by (cases "build_row n x w")
    from build_row_result [OF x row]
    have w1: "w1 = w\<lparr>drawn := drawn w + nat n\<rparr>"
      and rr: "rr = Inl ZeroDivisionError \<or> (\<exists>row. rr = Inr row \<and> stochastic (nat n) row)"
      by simp_all
    from rr show ?thesis
    proof
      assume "rr = Inl ZeroDivisionError"
      with row show ?thesis by (simp add: bind_c_def)
    next
      assume "\<exists>row. rr = Inr row \<and> stochastic (nat n) row"
      then obtain row where rr': "rr = Inr row" by blast
      have step: "for_each (x # xs) body tm w = for_each xs body (tm @ [row]) w1"
        using row rr' by (simp add: body_def bind_c_def returns_def)
      have a: "\<forall>i\<in>set xs. 0 \<le> i \<and> i < n" using Cons.prems(1) by simp
      have b: "k' < length xs" using Cons.prems(2) Suc by simp
      have c: "\<forall>j<nat n. tape w1 (drawn w1 + k' * nat n + j) mod 2 ^ 53 = 0"
      proof (intro allI impI)
        fix j assume "j < nat n"
        with Cons.prems(3) have "tape w (drawn w + k * nat n + j) mod 2 ^ 53 = 0" by blast
        moreover have "drawn w1 + k' * nat n + j = drawn w + k * nat n + j"
          using w1 Suc by simp
        moreover have "tape w1 = tape w"
          using w1 by simp
        ultimately show "tape w1 (drawn w1 + k' * nat n + j) mod 2 ^ 53 = 0"
          by (simp only:)
      qed
      from Cons.IH [OF a b c, of "tm @ [row]"] step show ?thesis
        by (simp add: body_def)
    qed
  qed
qed

lemma build_transition_matrix_zero_row:
  assumes "0 \<le> i" "i < n"
    and "\<forall>j<nat n. tape w (drawn w + nat i * nat n + j) mod 2 ^ 53 = 0"
  shows "fst (build_transition_matrix n w) = Inl ZeroDivisionError"
proof -
  have a: "\<forall>i\<in>set (py_range 0 n). 0 \<le> i \<and> i < n"
    by (simp add: set_py_range)
  have b: "nat i < length (py_range 0 n)"
    using assms(1,2) by (simp add: length_py_range)
  from matrix_loop_zero_row [OF a b assms(3)] show ?thesis
    by (simp add: build_transition_matrix_def)
qed

lemma markov_setup_fails:
  assumes "fst (build_transition_matrix n w) = Inl e"
  shows "fst (markov iv steps s n w) = Inl e"
  using assms by (cases "build_transition_matrix n w") (simp add: markov_def bind_c_def)

subsection \<open>The operator pool\<close>

lemma operation_pool_total:
  assumes "(f, l) \<in> set operation_pool"
  shows "\<exists>v. f x y = Inr v"
  using assms
  by (auto simp: operation_pool_def py_floordiv_def py_mod_def bind_e_def)

lemma length_operation_pool: "length operation_pool = 16"
  by (simp add: operation_pool_def)

lemma distinct_pool_names: "distinct (map snd operation_pool)"
  by (simp add: operation_pool_def)

subsection \<open>Sampling without replacement\<close>

lemma swap_out_set:
  assumes "j < length pool"
  shows "set (butlast (pool[j := last pool])) \<subseteq> set pool"
proof -
  have "set (butlast (pool[j := last pool])) \<subseteq> set (pool[j := last pool])"
    by (auto dest: in_set_butlastD)
  also have "\<dots> \<subseteq> insert (last pool) (set pool)"
    by (rule set_update_subset_insert)
  also have "\<dots> = set pool"
    using assms by (cases pool rule: rev_cases) auto
  finally show ?thesis .
qed

lemma swap_out_nth:
  assumes "i < length pool - 1"
  shows "butlast (pool[j := last pool]) ! i = (if i = j then pool ! (length pool - 1) else pool ! i)"
proof -
  have "pool \<noteq> []" using assms by auto
  then have "last pool = pool ! (length pool - 1)" by (rule last_conv_nth)
  with assms show ?thesis by (simp add: nth_butlast nth_list_update)
qed

lemma swap_out_distinct:
  assumes "distinct pool" "j < length pool"
  shows "distinct (butlast (pool[j := last pool])) \<and> pool ! j \<notin> set (butlast (pool[j := last pool]))"
proof -
  let ?p = "butlast (pool[j := last pool])"
  have len: "length ?p = length pool - 1" by simp
  have neq: "?p ! i \<noteq> pool ! j" if "i < length pool - 1" for i
    using that assms by (auto simp: swap_out_nth nth_eq_iff_index_eq)
  have inj: "?p ! a \<noteq> ?p ! b" if "a < length pool - 1" "b < length pool - 1" "a \<noteq> b" for a b
    using that assms by (auto simp: swap_out_nth nth_eq_iff_index_eq)
  have "distinct ?p"
    unfolding distinct_conv_nth len using inj by blast
  moreover have "pool ! j \<notin> set ?p"
    unfolding in_set_conv_nth len using neq by metis
  ultimately show ?thesis by blast
qed

lemma sample_loop_result:
  assumes "k \<le> length pool"
  shows "\<exists>res. sample_loop pool k w = (Inr res, w\<lparr>drawn := drawn w + k\<rparr>) \<and>
           length res = k \<and> set res \<subseteq> set pool \<and> (distinct pool \<longrightarrow> distinct res)"
  using assms
proof (induction k arbitrary: pool w)
  case 0
  then show ?case by (simp add: returns_def)
next
  case (Suc k)
  define j where "j = tape w (drawn w) mod length pool"
  define w1 where "w1 = w\<lparr>drawn := Suc (drawn w)\<rparr>"
  define pool' where "pool' = butlast (pool[j := last pool])"
  from Suc.prems have pos: "0 < length pool" by (cases pool) simp_all
  then have j: "j < length pool" by (simp add: j_def)
  have "k \<le> length pool'" using Suc.prems by (simp add: pool'_def)
  from Suc.IH [OF this, of w1] obtain rest where
    rest: "sample_loop pool' k w1 = (Inr rest, w1\<lparr>drawn := drawn w1 + k\<rparr>)"
    and len: "length rest = k" and sub: "set rest \<subseteq> set pool'"
    and dis: "distinct pool' \<longrightarrow> distinct rest"
    by blast
  have run: "sample_loop pool (Suc k) w = (Inr (pool ! j # rest), w1\<lparr>drawn := drawn w1 + k\<rparr>)"
    using rest
    by (simp add: bind_c_def randbelow_eq returns_def j_def [symmetric] w1_def [symmetric]
        pool'_def [symmetric])
  have w: "w1\<lparr>drawn := drawn w1 + k\<rparr> = w\<lparr>drawn := drawn w + Suc k\<rparr>"
    by (simp add: w1_def)
  have sub': "set (pool ! j # rest) \<subseteq> set pool"
    using sub swap_out_set [OF j] j by (auto simp: pool'_def)
  have dis': "distinct (pool ! j # rest)" if "distinct pool"
    using swap_out_distinct [OF that j] dis sub by (auto simp: pool'_def)
  show ?case
    using run w len sub' dis' by auto
qed

subsection \<open>Operator selection\<close>

lemma random_randint_1_5:
  "random_randint 1 5 w = (Inr (1 + int (tape w (drawn w) mod 5)), w\<lparr>drawn := Suc (drawn w)\<rparr>)"
  by (simp add: random_randint_def bind_c_def randbelow_eq returns_def)

lemma extra_constants_Suc:
  "extra_constants w (Suc k) =
     (1 + int (tape w (drawn w) mod 5)) # extra_constants (w\<lparr>drawn := Suc (drawn w)\<rparr>) k"
  by (simp add: extra_constants_def upt_conv_Cons map_Suc_upt [symmetric] del: upt_Suc)

lemma extra_constants_range: "c \<in> set (extra_constants w k) \<Longrightarrow> 1 \<le> c \<and> c \<le> 5"
  by (auto simp: extra_constants_def)

lemma extras_loop_eq:
  "for_each xs add_variation (fm, names) w =
   (Inr (fm @ map (\<lambda>c x y. Inr (x + y + c)) (extra_constants w (length xs)),
         names @ map (\<lambda>c. ''x + y + '' @ str c) (extra_constants w (length xs))),
    w\<lparr>drawn := drawn w + length xs\<rparr>)"
proof (induction xs arbitrary: fm names w)
  case Nil
  then show ?case by (simp add: returns_def extra_constants_def)
next
  case (Cons x xs)
  let ?c = "1 + int (tape w (drawn w) mod 5)"
  let ?w1 = "w\<lparr>drawn := Suc (drawn w)\<rparr>"
  have first: "add_variation x (fm, names) w =
      (Inr (fm @ [\<lambda>x y. Inr (x + y + ?c)], names @ [''x + y + '' @ str ?c]), ?w1)"
    by (simp add: add_variation_def bind_c_def random_randint_1_5 returns_def)
  have "for_each (x # xs) add_variation (fm, names) w =
      for_each xs add_variation (fm @ [\<lambda>x y. Inr (x + y + ?c)], names @ [''x + y + '' @ str ?c]) ?w1"
    using first by (simp add: bind_c_def)
  also have "\<dots> =
     (Inr (fm @ map (\<lambda>c x y. Inr (x + y + c)) (extra_constants w (length (x # xs))),
           names @ map (\<lambda>c. ''x + y + '' @ str c) (extra_constants w (length (x # xs)))),
      w\<lparr>drawn := drawn w + length (x # xs)\<rparr>)"
    unfolding Cons.IH by (simp add: extra_constants_Suc)
  finally show ?case .
qed

lemma distinct_operation_pool: "distinct operation_pool"
  using distinct_pool_names by (simp add: distinct_map)

lemma select_operations_negative:
  "n < 0 \<Longrightarrow> select_operations n w = (Inl ValueError, w)"
  by (simp add: select_operations_def random_sample_def raises_def)

lemma select_operations_result:
  assumes "0 \<le> n"
  shows "\<exists>sel. select_operations n w =
           (Inr (map fst sel @ map (\<lambda>c x y. Inr (x + y + c))
                   (extra_constants (w\<lparr>drawn := drawn w + 16\<rparr>) (nat (n - 16))),
                 map snd sel @ map (\<lambda>c. ''x + y + '' @ str c)
                   (extra_constants (w\<lparr>drawn := drawn w + 16\<rparr>) (nat (n - 16)))),
            w\<lparr>drawn := drawn w + nat n\<rparr>) \<and>
         length sel = min (nat n) 16 \<and> set sel \<subseteq> set operation_pool \<and> distinct (map snd sel)"
proof -
  define k where "k = nat (min n 16)"
  have k: "k \<le> length operation_pool" by (simp add: k_def length_operation_pool)
  from sample_loop_result [OF k, of w] distinct_operation_pool obtain sel where
    run: "sample_loop operation_pool k w = (Inr sel, w\<lparr>drawn := drawn w + k\<rparr>)"
    and len: "length sel = k" and sub: "set sel \<subseteq> set operation_pool" and dis: "distinct sel"
    by blast
  have "inj_on snd (set operation_pool)"
    using distinct_pool_names by (simp add: distinct_map)
  then have "inj_on snd (set sel)"
    using sub by (rule inj_on_subset)
  with dis have names: "distinct (map snd sel)" by (simp add: distinct_map)
  have sample: "random_sample operation_pool (min n (int (length operation_pool))) w =
      (Inr sel, w\<lparr>drawn := drawn w + k\<rparr>)"
    using assms run by (simp add: random_sample_def length_operation_pool k_def)
  show ?thesis
  proof (cases "n > 16")
    case True
    then have k16: "k = 16" by (simp add: k_def)
    have "select_operations n w =
        (Inr (map fst sel @ map (\<lambda>c x y. Inr (x + y + c))
                   (extra_constants (w\<lparr>drawn := drawn w + 16\<rparr>) (nat (n - 16))),
             map snd sel @ map (\<lambda>c. ''x + y + '' @ str c)
                   (extra_constants (w\<lparr>drawn := drawn w + 16\<rparr>) (nat (n - 16)))),
         w\<lparr>drawn := drawn w + nat n\<rparr>)"
      unfolding select_operations_def bind_c_def sample
      using True by (simp add: length_operation_pool extras_loop_eq length_py_range k16)
    with len sub names k16 True show ?thesis by auto
  next
    case False
    then have kn: "k = nat n" by (simp add: k_def)
    have "select_operations n w = (Inr (map fst sel, map snd sel), w\<lparr>drawn := drawn w + nat n\<rparr>)"
      unfolding select_operations_def bind_c_def sample
      using False by (simp add: length_operation_pool returns_def kn)
    moreover have "extra_constants (w\<lparr>drawn := drawn w + 16\<rparr>) (nat (n - 16)) = []"
      using False by (simp add: extra_constants_def)
    ultimately show ?thesis using len sub names kn False by auto
  qed
qed

lemma str_digit: "str 1 = ''1''"
  by (simp add: str_def str_nat.simps)

subsection \<open>Subscripts\<close>

lemma py_index_last:
  "xs \<noteq> [] \<Longrightarrow> py_index xs (- 1) = Inr (last xs)"
  by (cases xs rule: rev_cases) (simp_all add: py_index_def nth_append)

subsection \<open>The recurrence step\<close>

lemma preserves_heap_random_random: "preserves (\<lambda>w. P (heap w)) random_random"
  by (simp add: preserves_def random_random_eq)

lemma preserves_heap_random_choices:
  "preserves (\<lambda>w. P (heap w)) (random_choices population weights)"
  unfolding random_choices_def Let_def
  by (auto intro!: preserves_bind preserves_heap_random_random)

lemma preserves_heap_update_state: "preserves (\<lambda>w. P (heap w)) (update_state mc)"
  unfolding update_state_def
  by (intro preserves_bind preserves_lift preserves_heap_random_choices preserves_returns)

lemma update_state_heap: "update_state mc w = (r, w') \<Longrightarrow> heap w' = heap w"
  using preservesD [OF preserves_heap_update_state [of "\<lambda>h. h = heap w" mc], of w r w']
  by simp

lemma preserves_list_slice_from [simp]: "preserves I (list_slice_from r i)"
  by (simp add: preserves_def list_slice_from_def)

text \<open>What follows the append in the loop body does not touch the heap.\<close>

lemma preserves_heap_step_tail:
  "preserves (\<lambda>w. P (heap w))
     (bind_c (update_state mc) (\<lambda>mc'.
      bind_c (list_slice_from sequence i) (\<lambda>last_two.
      bind_c (lift_c (step_line step mc' nm last_two)) (\<lambda>line.
      returns mc'))))"
  by (intro preserves_bind preserves_heap_update_state preserves_list_slice_from
      preserves_lift preserves_returns)

text \<open>One pass through the loop body either raises before the append, or appends.\<close>

lemma markov_step_cases:
  assumes "markov_step sequence step mc w = (r, w')"
  shows "(\<exists>e. r = Inl e \<and> heap w' = heap w) \<or>
         (\<exists>f a b v. py_index (functions_matrix mc) (state mc) = Inr f \<and>
            py_index (heap w ! sequence) (- 1) = Inr a \<and>
            py_index (heap w ! sequence) (- 2) = Inr b \<and> f a b = Inr v \<and>
            heap w' = (heap w)[sequence := heap w ! sequence @ [v]])"
proof -
  define w1 where "w1 v = w\<lparr>heap := (heap w)[sequence := heap w ! sequence @ [v]]\<rparr>" for v
  define tail where "tail nm = bind_c (update_state mc) (\<lambda>mc'.
      bind_c (list_slice_from sequence (- 2)) (\<lambda>last_two.
      bind_c (lift_c (step_line step mc' nm last_two)) (\<lambda>line.
      returns mc')))" for nm
  have upd: "heap w'' = heap (w1 v)" if "tail nm (w1 v) = (r'', w'')" for v nm r'' w''
    using preservesD [OF preserves_heap_step_tail [of "\<lambda>h. h = heap (w1 v)" mc sequence "- 2" step nm],
        of "w1 v" r'' w''] that
    by (simp add: tail_def)
  show ?thesis
  proof (cases "py_index (functions_matrix mc) (state mc)")
    case (Inl e)
    with assms show ?thesis
      by (auto simp: markov_step_def raises_def)
  next
    case f: (Inr f)
    show ?thesis
    proof (cases "py_index (function_names mc) (state mc)")
      case (Inl e)
      with assms f show ?thesis by (auto simp: markov_step_def raises_def)
    next
      case nm: (Inr name)
      show ?thesis
      proof (cases "py_index (heap w ! sequence) (- 1)")
        case (Inl e)
        with assms f nm show ?thesis
          by (auto simp: markov_step_def bind_c_def list_index_def)
      next
        case a: (Inr a)
        show ?thesis
        proof (cases "py_index (heap w ! sequence) (- 2)")
          case (Inl e)
          with assms f nm a show ?thesis
            by (auto simp: markov_step_def bind_c_def list_index_def)
        next
          case b: (Inr b)
          show ?thesis
          proof (cases "f a b")
            case (Inl e)
            with assms f nm a b show ?thesis
              by (auto simp: markov_step_def bind_c_def list_index_def raises_def)
          next
            case v: (Inr v)
            have "markov_step sequence step mc w = tail name (w1 v)"
              using f nm a b v
              by (simp add: markov_step_def tail_def bind_c_def list_index_def list_append_def
                  w1_def)
            with assms have "tail name (w1 v) = (r, w')" by simp
            from upd [OF this] have "heap w' = (heap w)[sequence := heap w ! sequence @ [v]]"
              by (simp add: w1_def)
            with f a b v show ?thesis by blast
          qed
        qed
      qed
    qed
  qed
qed

lemma py_index_minus1:
  "py_index xs (- 1) = Inr a \<Longrightarrow> xs \<noteq> [] \<and> a = last xs"
  by (cases xs rule: rev_cases) (auto simp: py_index_def nth_append split: if_splits)

lemma py_index_minus2:
  assumes "py_index xs (- 2) = Inr b"
  shows "2 \<le> length xs \<and> b = xs ! (length xs - 2)"
proof -
  from assms have len: "2 \<le> int (length xs)"
    by (auto simp: py_index_def split: if_splits)
  then have "nat (int (length xs) + - 2) = length xs - 2" by linarith
  with assms len show ?thesis
    by (auto simp: py_index_def split: if_splits)
qed

lemma markov_loop_frame:
  assumes "for_each xs (markov_step sequence) mc w = (r, w')"
  shows "length (heap w') = length (heap w) \<and> (\<forall>i. i \<noteq> sequence \<longrightarrow> heap w' ! i = heap w ! i)"
proof -
  define I where "I u \<longleftrightarrow> length (heap u) = length (heap w) \<and>
      (\<forall>i. i \<noteq> sequence \<longrightarrow> heap u ! i = heap w ! i)" for u :: world
  have "preserves I (markov_step sequence step c)" for step c
    unfolding preserves_def
  proof (intro allI impI)
    fix u assume u: "I u"
    obtain r1 u1 where s: "markov_step sequence step c u = (r1, u1)"
      by (cases "markov_step sequence step c u")
    from markov_step_cases [OF s] u have "I u1"
      by (auto simp: I_def)
    with s show "I (snd (markov_step sequence step c u))" by simp
  qed
  then have "preserves I (for_each xs (markov_step sequence) mc)"
    by (rule preserves_for_each)
  moreover have "I w" by (simp add: I_def)
  ultimately have "I w'" using assms by (rule preservesD)
  then show ?thesis by (simp add: I_def)
qed

text \<open>A loop that completes has appended one value for each index it ran over.\<close>

lemma markov_loop_appends:
  assumes "for_each xs (markov_step sequence) mc w = (Inr mc', w')"
    and "sequence < length (heap w)"
  shows "\<exists>vs. heap w' ! sequence = heap w ! sequence @ vs \<and> length vs = length xs"
  using assms
proof (induction xs arbitrary: mc w)
  case Nil
  then show ?case by (simp add: returns_def)
next
  case (Cons x xs)
  from Cons.prems(1) obtain mc1 w1 where
    s: "markov_step sequence x mc w = (Inr mc1, w1)"
    and rest: "for_each xs (markov_step sequence) mc1 w1 = (Inr mc', w')"
    by (auto simp: bind_c_eq_Inr)
  from markov_step_cases [OF s] obtain v where
    h: "heap w1 = (heap w)[sequence := heap w ! sequence @ [v]]" by auto
  with Cons.prems(2) have l: "sequence < length (heap w1)"
    and g: "heap w1 ! sequence = heap w ! sequence @ [v]"
    by simp_all
  from Cons.IH [OF rest l] obtain vs where
    "heap w' ! sequence = heap w1 ! sequence @ vs" "length vs = length xs" by blast
  with g have "heap w' ! sequence = heap w ! sequence @ (v # vs) \<and>
      length (v # vs) = length (x # xs)" by simp
  then show ?case by blast
qed

subsection \<open>The whole of \<^verbatim>\<open>markov\<close>\<close>

lemma markov_build_raises:
  "build_transition_matrix n w = (Inl e, w1) \<Longrightarrow> markov iv steps st n w = (Inl e, w1)"
  by (simp add: markov_def bind_c_def)

lemma markov_select_raises:
  assumes "build_transition_matrix n w = (Inr tm, w1)" "select_operations n w1 = (Inl e, w2)"
  shows "markov iv steps st n w = (Inl e, w2)"
  using assms by (simp add: markov_def bind_c_def)

lemma markov_unfold:
  assumes "build_transition_matrix n w = (Inr tm, w1)"
    and "select_operations n w1 = (Inr (fm, names), w2)"
  shows "markov iv steps st n w =
     (case for_each (py_range 1 steps) (markov_step (length (heap w2)))
             (MarkovChain_init tm fm names st) (w2\<lparr>heap := heap w2 @ [heap w2 ! iv]\<rparr>) of
        (Inl e, w4) \<Rightarrow> (Inl e, w4)
      | (Inr mc, w4) \<Rightarrow> (Inr (length (heap w2)), w4))"
  using assms
  by (simp add: markov_def bind_c_def list_copy_def returns_def split: prod.splits sum.splits)

lemma setup_result:
  assumes "build_transition_matrix n w = (Inr tm, w1)"
    and "select_operations n w1 = (Inr (fm, names), w2)"
  shows "0 \<le> n \<and> heap w2 = heap w \<and> tape w2 = tape w \<and>
         drawn w2 = drawn w + nat n * nat n + nat n \<and>
         length tm = nat n \<and> list_all (stochastic (nat n)) tm \<and>
         length fm = nat n \<and> length names = nat n \<and>
         list_all (\<lambda>f. \<forall>x y. \<exists>v. f x y = Inr v) fm"
proof -
  from build_transition_matrix_result [OF assms(1)]
  have b: "tape w1 = tape w" "heap w1 = heap w" "w1 = w\<lparr>drawn := drawn w + nat n * nat n\<rparr>"
    "length tm = nat n" "list_all (stochastic (nat n)) tm"
    by simp_all
  have n: "0 \<le> n"
  proof (rule ccontr)
    assume "\<not> 0 \<le> n"
    then have "select_operations n w1 = (Inl ValueError, w1)"
      by (simp add: select_operations_negative)
    with assms(2) show False by simp
  qed
  define cs where "cs = extra_constants (w1\<lparr>drawn := drawn w1 + 16\<rparr>) (nat (n - 16))"
  from select_operations_result [OF n, of w1] assms(2) obtain sel where
    fm: "fm = map fst sel @ map (\<lambda>c x y. Inr (x + y + c)) cs"
    and names: "names = map snd sel @ map (\<lambda>c. ''x + y + '' @ str c) cs"
    and w2: "w2 = w1\<lparr>drawn := drawn w1 + nat n\<rparr>"
    and len: "length sel = min (nat n) 16" and sub: "set sel \<subseteq> set operation_pool"
    unfolding cs_def by auto
  have lcs: "length cs = nat (n - 16)" by (simp add: cs_def extra_constants_def)
  have l: "length fm = nat n" "length names = nat n"
    using len lcs n by (auto simp: fm names min_def)
  have "\<forall>x y. \<exists>v. f x y = Inr v" if "f \<in> set fm" for f
  proof -
    from that have "f \<in> fst ` set sel \<or> (\<exists>c. f = (\<lambda>x y. Inr (x + y + c)))"
      by (auto simp: fm)
    then show ?thesis
    proof
      assume "f \<in> fst ` set sel"
      then obtain l where "(f, l) \<in> set operation_pool" using sub by auto
      then show ?thesis using operation_pool_total by blast
    next
      assume "\<exists>c. f = (\<lambda>x y. Inr (x + y + c))"
      then show ?thesis by auto
    qed
  qed
  then have tot: "list_all (\<lambda>f. \<forall>x y. \<exists>v. f x y = Inr v) fm"
    by (simp add: list_all_iff)
  from b w2 n l tot show ?thesis by simp
qed

lemma markov_heap_frame:
  assumes "markov iv steps st n w = (r, w')" "i < length (heap w)"
  shows "heap w' ! i = heap w ! i \<and> r \<noteq> Inr i"
proof (cases "build_transition_matrix n w")
  case (Pair rb w1)
  from build_transition_matrix_result [OF Pair] have h1: "heap w1 = heap w" by simp
  show ?thesis
  proof (cases rb)
    case (Inl e)
    with Pair markov_build_raises [of n w e w1 iv steps st] assms h1 show ?thesis by simp
  next
    case tm: (Inr tm)
    obtain rs w2 where s: "select_operations n w1 = (rs, w2)"
      by (cases "select_operations n w1")
    show ?thesis
    proof (cases rs)
      case (Inl e)
      have "n < 0"
      proof (rule ccontr)
        assume "\<not> n < 0"
        then have "0 \<le> n" by simp
        from select_operations_result [OF this, of w1] s Inl show False by auto
      qed
      then have "w2 = w1" using s by (simp add: select_operations_negative)
      with markov_select_raises [OF Pair [unfolded tm] s [unfolded Inl], of iv steps st] assms h1
      show ?thesis by simp
    next
      case (Inr p)
      obtain fm names where p: "p = (fm, names)" by (cases p)
      note b = Pair [unfolded tm] and s' = s [unfolded Inr p]
      from setup_result [OF b s'] have h2: "heap w2 = heap w" by simp
      define w3 where "w3 = w2\<lparr>heap := heap w2 @ [heap w2 ! iv]\<rparr>"
      obtain rl w4 where loop: "for_each (py_range 1 steps) (markov_step (length (heap w2)))
             (MarkovChain_init tm fm names st) w3 = (rl, w4)"
        by (cases "for_each (py_range 1 steps) (markov_step (length (heap w2)))
             (MarkovChain_init tm fm names st) w3")
      from markov_loop_frame [OF loop] assms(2) h2
      have "heap w4 ! i = heap w3 ! i" by simp
      also have "\<dots> = heap w ! i"
        using assms(2) h2 by (simp add: w3_def nth_append)
      finally have keep: "heap w4 ! i = heap w ! i" .
      from markov_unfold [OF b s', of iv steps st] loop assms(1)
      have "w' = w4 \<and> (r = Inr (length (heap w2)) \<or> (\<exists>e. r = Inl e))"
        by (auto simp: w3_def [symmetric] split: sum.splits)
      with keep h2 assms(2) show ?thesis by auto
    qed
  qed
qed

subsection \<open>Runs with a single state\<close>

lemma py_range_single: "py_range a (a + 1) = [a]"
  by (simp add: py_range_def)

lemma build_one:
  assumes "tape w (drawn w) mod 2 ^ 53 \<noteq> 0"
  shows "build_transition_matrix 1 w = (Inr [[1]], w\<lparr>drawn := Suc (drawn w)\<rparr>)"
proof -
  have u: "unit_float (tape w (drawn w)) \<noteq> 0"
    using assms by (simp add: unit_float_zero_iff)
  have row: "build_row 1 0 w = (Inr [1], w\<lparr>drawn := Suc (drawn w)\<rparr>)"
    using u by (simp add: build_row_eq drawn_row_def Let_def)
  have "py_range 0 1 = [0]" using py_range_single [of 0] by simp
  then show ?thesis
    using row by (simp add: build_transition_matrix_def bind_c_def returns_def)
qed

lemma select_one:
  "select_operations 1 w =
     (Inr ([fst (operation_pool ! (tape w (drawn w) mod 16))],
           [snd (operation_pool ! (tape w (drawn w) mod 16))]),
      w\<lparr>drawn := Suc (drawn w)\<rparr>)"
proof -
  have "sample_loop operation_pool (Suc 0) w =
      (Inr [operation_pool ! (tape w (drawn w) mod 16)], w\<lparr>drawn := Suc (drawn w)\<rparr>)"
    by (simp add: bind_c_def randbelow_eq returns_def length_operation_pool)
  then show ?thesis
    by (simp add: select_operations_def random_sample_def length_operation_pool bind_c_def
        returns_def)
qed

lemma bisect_right_empty: "bisect_right a x lo lo = lo"
  by (subst bisect_right.simps) simp

lemma single_state_update:
  assumes "transition_matrix mc = [[1]]" "state mc = 0 \<or> state mc = - 1"
  shows "update_state mc u = (Inr (mc\<lparr>state := 0\<rparr>), u\<lparr>drawn := Suc (drawn u)\<rparr>)"
proof -
  have idx: "py_index (transition_matrix mc) (state mc) = Inr [1]"
    using assms by (auto simp: py_index_def)
  have "py_range 0 1 = [0]" using py_range_single [of 0] by simp
  then have ch: "random_choices (py_range 0 (int (length [1::real]))) [1] u =
      (Inr [0], u\<lparr>drawn := Suc (drawn u)\<rparr>)"
    by (simp add: random_choices_def Let_def accumulate_def py_index_def bind_c_def lift_c_def
        random_random_eq bisect_right_empty returns_def)
  show ?thesis
    using idx ch by (simp add: update_state_def bind_c_def lift_c_def py_index_def returns_def)
qed

text \<open>The digit limit of the conversion to text.\<close>

lemma length_str_nat:
  "n < 10 ^ k \<Longrightarrow> 0 < k \<Longrightarrow> length (str_nat n) \<le> k"
proof (induction n arbitrary: k rule: str_nat.induct)
  case (1 n)
  show ?case
  proof (cases "n < 10")
    case True
    with "1.prems" show ?thesis by (subst str_nat.simps) simp
  next
    case False
    obtain j where k: "k = Suc j" using "1.prems"(2) by (cases k) auto
    have j: "0 < j"
    proof (rule ccontr)
      assume "\<not> 0 < j"
      with k "1.prems"(1) False show False by simp
    qed
    from "1.prems"(1) k have "n div 10 < 10 ^ j" by (simp add: less_mult_imp_div_less mult.commute)
    from "1.IH" [OF False this j] have "length (str_nat (n div 10)) \<le> j" .
    with False k show ?thesis by (subst str_nat.simps) simp
  qed
qed

lemma py_str_small: "\<bar>i\<bar> < 100 \<Longrightarrow> py_str i = Inr (str i)"
proof -
  assume "\<bar>i\<bar> < 100"
  then have "nat \<bar>i\<bar> < 10 ^ 2" by simp
  then have "length (str_nat (nat \<bar>i\<bar>)) \<le> 2" by (rule length_str_nat) simp
  then show ?thesis by (simp add: py_str_def int_max_str_digits_def)
qed

lemma length_str_nat_lower:
  "10 ^ k \<le> n \<Longrightarrow> k < length (str_nat n)"
proof (induction n arbitrary: k rule: str_nat.induct)
  case (1 n)
  show ?case
  proof (cases "n < 10")
    case True
    have "k = 0"
    proof (rule ccontr)
      assume "k \<noteq> 0"
      then obtain j where "k = Suc j" by (cases k) auto
      then have "(10::nat) ^ 1 \<le> 10 ^ k" by (intro power_increasing) simp_all
      with "1.prems" have "10 \<le> n" by simp
      with True show False by simp
    qed
    with True show ?thesis by (subst str_nat.simps) simp
  next
    case False
    show ?thesis
    proof (cases k)
      case 0
      with False show ?thesis by (subst str_nat.simps) simp
    next
      case (Suc j)
      with "1.prems" have "10 ^ j \<le> n div 10"
        by (simp add: less_eq_div_iff_mult_less_eq mult.commute)
      from "1.IH" [OF False this] have "j < length (str_nat (n div 10))" .
      with False Suc show ?thesis by (subst str_nat.simps) simp
    qed
  qed
qed

lemma py_str_limit:
  "py_str i = Inl ValueError \<longleftrightarrow> 10 ^ int_max_str_digits \<le> \<bar>i\<bar>"
proof
  assume "py_str i = Inl ValueError"
  then have big: "int_max_str_digits < length (str_nat (nat \<bar>i\<bar>))"
    by (simp add: py_str_def split: if_splits)
  show "10 ^ int_max_str_digits \<le> \<bar>i\<bar>"
  proof (rule ccontr)
    assume "\<not> 10 ^ int_max_str_digits \<le> \<bar>i\<bar>"
    then have "nat \<bar>i\<bar> < 10 ^ int_max_str_digits"
      by (simp add: nat_less_iff)
    then have "length (str_nat (nat \<bar>i\<bar>)) \<le> int_max_str_digits"
      by (rule length_str_nat) (simp add: int_max_str_digits_def)
    with big show False by simp
  qed
next
  assume "10 ^ int_max_str_digits \<le> \<bar>i\<bar>"
  then have "10 ^ int_max_str_digits \<le> nat \<bar>i\<bar>"
    by (simp add: le_nat_iff)
  then have "int_max_str_digits < length (str_nat (nat \<bar>i\<bar>))"
    by (rule length_str_nat_lower)
  then show "py_str i = Inl ValueError" by (simp add: py_str_def)
qed

lemma py_str_error: "py_str i = Inl e \<Longrightarrow> e = ValueError"
  by (simp add: py_str_def split: if_splits)

lemma map_e_py_str_raises:
  assumes "x \<in> set xs" "10 ^ int_max_str_digits \<le> \<bar>x\<bar>"
  shows "map_e py_str xs = Inl ValueError"
  using assms
proof (induction xs)
  case Nil
  then show ?case by simp
next
  case (Cons y ys)
  show ?case
  proof (cases "py_str y")
    case (Inl e)
    with py_str_error [OF Inl] show ?thesis by (simp add: bind_e_def)
  next
    case (Inr t)
    then have "\<not> 10 ^ int_max_str_digits \<le> \<bar>y\<bar>"
      using py_str_limit [of y] by auto
    with Cons.prems have "x \<in> set ys" by auto
    from Cons.IH [OF this Cons.prems(2)] Inr show ?thesis by (simp add: bind_e_def)
  qed
qed

text \<open>The line cannot be formatted once one of the two values shown has too many digits.\<close>

lemma step_line_raises:
  assumes "x \<in> set last_two" "10 ^ int_max_str_digits \<le> \<bar>x\<bar>"
  shows "step_line step mc nm last_two = Inl ValueError"
proof -
  have r: "py_repr_list last_two = Inl ValueError"
    using map_e_py_str_raises [OF assms] by (simp add: py_repr_list_def bind_e_def)
  show ?thesis
  proof (cases "py_str step")
    case (Inl e)
    with py_str_error [OF Inl] show ?thesis by (simp add: step_line_def bind_e_def)
  next
    case s: (Inr t)
    show ?thesis
    proof (cases "py_str (state mc)")
      case (Inl e)
      with py_str_error [OF Inl] s show ?thesis by (simp add: step_line_def bind_e_def)
    next
      case (Inr t')
      with s r show ?thesis by (simp add: step_line_def bind_e_def)
    qed
  qed
qed

lemma step_line_small:
  assumes "\<bar>step\<bar> < 100" "\<bar>state mc\<bar> < 100" "\<bar>x\<bar> < 100" "\<bar>y\<bar> < 100"
  shows "\<exists>line. step_line step mc nm [x, y] = Inr line"
  using assms by (simp add: step_line_def py_repr_list_def bind_e_def py_str_small)

lemma py_slice_last_two: "py_slice_from (xs @ [x, y]) (- 2) = [x, y]"
  by (simp add: py_slice_from_def)

lemma single_state_step:
  assumes "transition_matrix mc = [[1]]" "functions_matrix mc = [f]" "function_names mc = [nm]"
    and "state mc = 0 \<or> state mc = - 1"
    and "sequence < length (heap u)"
    and "py_index (heap u ! sequence) (- 1) = Inr a"
    and "py_index (heap u ! sequence) (- 2) = Inr b"
    and "f a b = Inr v"
    and "step_line step (mc\<lparr>state := 0\<rparr>) nm (py_slice_from (heap u ! sequence @ [v]) (- 2))
           = Inr line"
  shows "markov_step sequence step mc u =
     (Inr (mc\<lparr>state := 0\<rparr>),
      u\<lparr>heap := (heap u)[sequence := heap u ! sequence @ [v]], drawn := Suc (drawn u)\<rparr>)"
proof -
  have pf: "py_index (functions_matrix mc) (state mc) = Inr f"
    using assms(2,4) by (auto simp: py_index_def)
  have pn: "py_index (function_names mc) (state mc) = Inr nm"
    using assms(3,4) by (auto simp: py_index_def)
  define u1 where "u1 = u\<lparr>heap := (heap u)[sequence := heap u ! sequence @ [v]]\<rparr>"
  have us: "update_state mc u1 = (Inr (mc\<lparr>state := 0\<rparr>), u1\<lparr>drawn := Suc (drawn u1)\<rparr>)"
    using assms(1,4) by (rule single_state_update)
  have sl: "heap (u1\<lparr>drawn := Suc (drawn u1)\<rparr>) ! sequence = heap u ! sequence @ [v]"
    using assms(5) by (simp add: u1_def)
  have "markov_step sequence step mc u = (Inr (mc\<lparr>state := 0\<rparr>), u1\<lparr>drawn := Suc (drawn u1)\<rparr>)"
    using pf pn assms(6,7,8) us sl assms(9)
    by (simp add: markov_step_def bind_c_def list_index_def list_append_def list_slice_from_def
        lift_c_def returns_def u1_def [symmetric])
  then show ?thesis by (simp add: u1_def)
qed

lemma addition_step:
  assumes "sequence < length (heap u)" "heap u ! sequence = xs @ [b, a]"
    and "transition_matrix mc = [[1]]" "functions_matrix mc = [\<lambda>x y. Inr (x + y)]"
    and "function_names mc = [nm]" "state mc = 0 \<or> state mc = - 1"
    and "\<bar>step\<bar> < 100" "\<bar>a\<bar> < 100" "\<bar>a + b\<bar> < 100"
  shows "markov_step sequence step mc u =
     (Inr (mc\<lparr>state := 0\<rparr>),
      u\<lparr>heap := (heap u)[sequence := xs @ [b, a, a + b]], drawn := Suc (drawn u)\<rparr>)"
proof -
  have a: "py_index (heap u ! sequence) (- 1) = Inr a"
    using assms(2) by (simp add: py_index_last)
  have b: "py_index (heap u ! sequence) (- 2) = Inr b"
    using assms(2) by (simp add: py_index_def nth_append)
  have "py_slice_from (heap u ! sequence @ [a + b]) (- 2) = [a, a + b]"
    using py_slice_last_two [of "xs @ [b]" a "a + b"] assms(2) by simp
  moreover from step_line_small [OF assms(7) _ assms(8,9), of "mc\<lparr>state := 0\<rparr>" nm]
  obtain line where "step_line step (mc\<lparr>state := 0\<rparr>) nm [a, a + b] = Inr line" by auto
  ultimately have p: "step_line step (mc\<lparr>state := 0\<rparr>) nm
      (py_slice_from (heap u ! sequence @ [a + b]) (- 2)) = Inr line" by simp
  from single_state_step [OF assms(3,4,5,6) assms(1) a b _ p] assms(2)
  show ?thesis by simp
qed

lemma fib_run:
  assumes "sequence < length (heap u)" "heap u ! sequence = [2, 3]"
    and "st = 0 \<or> st = - 1"
  shows "\<exists>mc. for_each (py_range 1 5) (markov_step sequence)
           (MarkovChain_init [[1]] [\<lambda>x y. Inr (x + y)] [nm] st) u =
         (Inr mc, u\<lparr>heap := (heap u)[sequence := [2, 3, 5, 8, 13, 21]],
                    drawn := drawn u + 4\<rparr>)"
proof -
  define mc0 where "mc0 = MarkovChain_init [[1]] [\<lambda>x y. Inr (x + y)] [nm] st"
  define mc where "mc = mc0\<lparr>state := 0\<rparr>"
  have f0: "transition_matrix mc0 = [[1]]" "functions_matrix mc0 = [\<lambda>x y. Inr (x + y)]"
    "function_names mc0 = [nm]" "state mc0 = 0 \<or> state mc0 = - 1"
    using assms(3) by (simp_all add: mc0_def MarkovChain_init_def)
  have f: "transition_matrix mc = [[1]]" "functions_matrix mc = [\<lambda>x y. Inr (x + y)]"
    "function_names mc = [nm]" "state mc = 0 \<or> state mc = - 1" "mc\<lparr>state := 0\<rparr> = mc"
    by (simp_all add: mc_def mc0_def MarkovChain_init_def)
  define u1 where "u1 = u\<lparr>heap := (heap u)[sequence := [2, 3, 5]], drawn := Suc (drawn u)\<rparr>"
  define u2 where "u2 = u1\<lparr>heap := (heap u1)[sequence := [2, 3, 5, 8]], drawn := Suc (drawn u1)\<rparr>"
  define u3 where "u3 = u2\<lparr>heap := (heap u2)[sequence := [2, 3, 5, 8, 13]], drawn := Suc (drawn u2)\<rparr>"
  define u4 where "u4 = u3\<lparr>heap := (heap u3)[sequence := [2, 3, 5, 8, 13, 21]], drawn := Suc (drawn u3)\<rparr>"
  have s1: "markov_step sequence 1 mc0 u = (Inr mc, u1)"
    using addition_step [OF assms(1) _ f0, of "[]" 2 3 1] assms(2)
    by (simp add: u1_def mc_def)
  have l1: "sequence < length (heap u1)" "heap u1 ! sequence = [2] @ [3, 5]"
    using assms(1) by (simp_all add: u1_def)
  have s2: "markov_step sequence 2 mc u1 = (Inr mc, u2)"
    using addition_step [OF l1 f(1-4), of 2] f(5) by (simp add: u2_def)
  have l2: "sequence < length (heap u2)" "heap u2 ! sequence = [2, 3] @ [5, 8]"
    using l1(1) by (simp_all add: u2_def)
  have s3: "markov_step sequence 3 mc u2 = (Inr mc, u3)"
    using addition_step [OF l2 f(1-4), of 3] f(5) by (simp add: u3_def)
  have l3: "sequence < length (heap u3)" "heap u3 ! sequence = [2, 3, 5] @ [8, 13]"
    using l2(1) by (simp_all add: u3_def)
  have s4: "markov_step sequence 4 mc u3 = (Inr mc, u4)"
    using addition_step [OF l3 f(1-4), of 4] f(5) by (simp add: u4_def)
  have r: "py_range 1 5 = [1, 2, 3, 4]"
    by (simp add: py_range_def upto_rec1)
  have "for_each (py_range 1 5) (markov_step sequence) mc0 u = (Inr mc, u4)"
    unfolding r using s1 s2 s3 s4 by (simp add: bind_c_def returns_def)
  moreover have "u4 = u\<lparr>heap := (heap u)[sequence := [2, 3, 5, 8, 13, 21]],
                    drawn := drawn u + 4\<rparr>"
    by (simp add: u4_def u3_def u2_def u1_def)
  ultimately show ?thesis unfolding mc0_def by blast
qed

lemma markov_fib:
  assumes "iv < length (heap w)" "heap w ! iv = [2, 3]"
    and "tape w (drawn w) mod 2 ^ 53 \<noteq> 0" "tape w (Suc (drawn w)) mod 16 = 0"
    and "st = 0 \<or> st = - 1"
  shows "markov iv 5 st 1 w =
     (Inr (length (heap w)),
      w\<lparr>heap := heap w @ [[2, 3, 5, 8, 13, 21]], drawn := drawn w + 6\<rparr>)"
proof -
  define w1 where "w1 = w\<lparr>drawn := Suc (drawn w)\<rparr>"
  define w2 where "w2 = w1\<lparr>drawn := Suc (drawn w1)\<rparr>"
  define w3 where "w3 = w2\<lparr>heap := heap w2 @ [heap w2 ! iv]\<rparr>"
  have b: "build_transition_matrix 1 w = (Inr [[1]], w1)"
    using assms(3) by (simp add: build_one w1_def)
  have "tape w1 (drawn w1) mod 16 = 0" using assms(4) by (simp add: w1_def)
  then have s: "select_operations 1 w1 = (Inr ([\<lambda>x y. Inr (x + y)], [''x + y'']), w2)"
    by (simp add: select_one w2_def operation_pool_def)
  have h2: "heap w2 = heap w" by (simp add: w2_def w1_def)
  have l: "length (heap w2) < length (heap w3)" "heap w3 ! length (heap w2) = [2, 3]"
    using assms(1,2) by (simp_all add: w3_def h2 nth_append)
  from fib_run [OF l assms(5), of "''x + y''"] obtain mc where
    loop: "for_each (py_range 1 5) (markov_step (length (heap w2)))
           (MarkovChain_init [[1]] [\<lambda>x y. Inr (x + y)] [''x + y''] st) w3 =
         (Inr mc, w3\<lparr>heap := (heap w3)[length (heap w2) := [2, 3, 5, 8, 13, 21]],
                    drawn := drawn w3 + 4\<rparr>)"
    by blast
  have "markov iv 5 st 1 w = (Inr (length (heap w2)),
      w3\<lparr>heap := (heap w3)[length (heap w2) := [2, 3, 5, 8, 13, 21]], drawn := drawn w3 + 4\<rparr>)"
    unfolding markov_unfold [OF b s] w3_def [symmetric] loop by simp
  also have "\<dots> = (Inr (length (heap w)),
      w\<lparr>heap := heap w @ [[2, 3, 5, 8, 13, 21]], drawn := drawn w + 6\<rparr>)"
    by (simp add: w3_def w2_def w1_def)
  finally show ?thesis .
qed

lemma py_range_empty: "b \<le> a \<Longrightarrow> py_range a b = []"
  by (simp add: py_range_def)

lemma py_range_Cons: "a < b \<Longrightarrow> py_range a b = a # py_range (a + 1) b"
  by (simp add: py_range_def upto_rec1)

lemma markov_no_steps:
  assumes "build_transition_matrix n w = (Inr tm, w1)"
    and "select_operations n w1 = (Inr (fm, names), w2)"
    and "steps \<le> 1"
  shows "markov iv steps st n w = (Inr (length (heap w)), w2\<lparr>heap := heap w @ [heap w ! iv]\<rparr>)"
proof -
  from setup_result [OF assms(1,2)] have h: "heap w2 = heap w" by simp
  show ?thesis
    unfolding markov_unfold [OF assms(1,2)]
    using assms(3) by (simp add: py_range_empty returns_def h)
qed

lemma markov_first_step_raises:
  assumes "build_transition_matrix n w = (Inr tm, w1)"
    and "select_operations n w1 = (Inr (fm, names), w2)"
    and "2 \<le> steps"
    and "markov_step (length (heap w)) 1 (MarkovChain_init tm fm names st)
           (w2\<lparr>heap := heap w @ [heap w ! iv]\<rparr>) = (Inl e, w')"
  shows "markov iv steps st n w = (Inl e, w')"
proof -
  from setup_result [OF assms(1,2)] have h: "heap w2 = heap w" by simp
  have r: "py_range 1 steps = 1 # py_range 2 steps"
    using assms(3) py_range_Cons [of 1 steps] by simp
  show ?thesis
    unfolding markov_unfold [OF assms(1,2)] r
    using assms(4) by (simp add: bind_c_def h)
qed

lemma py_index_error: "py_index xs i = Inl e \<Longrightarrow> e = IndexError"
  by (auto simp: py_index_def split: if_splits)

lemma py_index_same_length:
  "length ys = length xs \<Longrightarrow> py_index xs i = Inr x \<Longrightarrow> \<exists>y. py_index ys i = Inr y"
  by (auto simp: py_index_def split: if_splits)

lemma markov_step_bad_state:
  assumes "int (length (functions_matrix mc)) \<le> state mc \<or>
           state mc < - int (length (functions_matrix mc))"
  shows "markov_step sequence step mc u = (Inl IndexError, u)"
proof -
  have "py_index (functions_matrix mc) (state mc) = Inl IndexError"
    using assms by (auto simp: py_index_def)
  then show ?thesis by (simp add: markov_step_def raises_def)
qed

lemma markov_step_short:
  assumes "length (heap u ! sequence) < 2"
    and "length (function_names mc) = length (functions_matrix mc)"
  shows "markov_step sequence step mc u = (Inl IndexError, u)"
proof (cases "py_index (functions_matrix mc) (state mc)")
  case (Inl e)
  with py_index_error [OF Inl] show ?thesis
    by (simp add: markov_step_def raises_def)
next
  case f: (Inr f)
  from py_index_same_length [OF assms(2) f] obtain nm where
    nm: "py_index (function_names mc) (state mc) = Inr nm" by blast
  show ?thesis
  proof (cases "py_index (heap u ! sequence) (- 1)")
    case (Inl e)
    with py_index_error [OF Inl] f nm show ?thesis
      by (simp add: markov_step_def bind_c_def list_index_def)
  next
    case a: (Inr a)
    have "py_index (heap u ! sequence) (- 2) = Inl IndexError"
      using assms(1) by (auto simp: py_index_def)
    with f nm a show ?thesis
      by (simp add: markov_step_def bind_c_def list_index_def)
  qed
qed

lemma fib_world_facts:
  "(0::nat) < length (heap fib_world)" "heap fib_world ! 0 = [2, 3]"
  "tape fib_world (drawn fib_world) mod 2 ^ 53 \<noteq> 0"
  "tape fib_world (Suc (drawn fib_world)) mod 16 = 0"
  by (simp_all add: fib_world_def)

lemma setup_one:
  assumes "tape w (drawn w) mod 2 ^ 53 \<noteq> 0"
  shows "\<exists>fm names. build_transition_matrix 1 w = (Inr [[1]], w\<lparr>drawn := Suc (drawn w)\<rparr>) \<and>
     select_operations 1 (w\<lparr>drawn := Suc (drawn w)\<rparr>) = (Inr (fm, names), w\<lparr>drawn := drawn w + 2\<rparr>)"
  using assms by (simp add: build_one select_one)

lemma single_world_facts:
  "tape single_world (drawn single_world) mod 2 ^ 53 \<noteq> 0"
  "length (heap single_world ! 0) < 2"
  by (simp_all add: single_world_def)

lemma markov_short_seed_steps:
  assumes "length (heap w ! iv) < 2"
    and "build_transition_matrix n w = (Inr tm, w1)"
    and "select_operations n w1 = (Inr (fm, names), w2)"
    and "2 \<le> steps"
  shows "markov iv steps st n w = (Inl IndexError, w2\<lparr>heap := heap w @ [heap w ! iv]\<rparr>)"
proof -
  from setup_result [OF assms(2,3)] have l: "length names = length fm" by simp
  define w3 where "w3 = w2\<lparr>heap := heap w @ [heap w ! iv]\<rparr>"
  have "length (heap w3 ! length (heap w)) < 2"
    using assms(1) by (simp add: w3_def)
  then have "markov_step (length (heap w)) 1 (MarkovChain_init tm fm names st) w3 =
      (Inl IndexError, w3)"
    by (rule markov_step_short) (simp add: MarkovChain_init_def l)
  then show ?thesis
    unfolding w3_def by (rule markov_first_step_raises [OF assms(2,3,4)])
qed

section \<open>The claims\<close>

subsection \<open>C7: a row of zero draws\<close>

text \<open>
  Claim C7 says that a row whose draws are all exactly zero falls back to the uniform
  distribution and that nothing reaches the caller. The code does not do this. Its
  comment reads "Normalize to ensure probabilities sum to 1", but the row sum is then zero
  and \<^verbatim>\<open>p / row_sum\<close> raises \<^verbatim>\<open>ZeroDivisionError\<close>; the integer divisions of the same
  function are guarded against a zero divisor, this one is not. With one state and a zero
  draw, neither the uniform row \<open>[1]\<close> nor any sequence is produced.
\<close>

theorem uniform_fallback_counterexample:
  "fst (build_transition_matrix 1 zero_world) = Inl ZeroDivisionError \<and>
   fst (build_transition_matrix 1 zero_world) \<noteq> Inr [[1]] \<and>
   fst (markov 0 5 0 1 zero_world) = Inl ZeroDivisionError"
proof -
  have h: "\<forall>j<nat 1. tape zero_world (drawn zero_world + nat 0 * nat 1 + j) mod 2 ^ 53 = 0"
    by (simp add: zero_world_def)
  have "fst (build_transition_matrix 1 zero_world) = Inl ZeroDivisionError"
    by (rule build_transition_matrix_zero_row [of 0, OF _ _ h]) simp_all
  then show ?thesis
    using markov_setup_fails [of 1 zero_world ZeroDivisionError 0 5 0] by simp
qed

text \<open>
  C7, what the code does in place of the fallback: for every \<open>num_states \<ge> 1\<close>, if all
  \<open>num_states\<close> draws of some row \<open>i\<close> are zero, then \<^verbatim>\<open>markov\<close> raises
  \<^verbatim>\<open>ZeroDivisionError\<close> to its caller, whatever the seeds, the step count and the initial
  state are.
\<close>

theorem markov_zero_row_raises:
  assumes "0 \<le> i" "i < num_states"
    and "\<forall>j<nat num_states. tape w (drawn w + nat i * nat num_states + j) mod 2 ^ 53 = 0"
  shows "fst (markov initial_values steps initial_state num_states w) = Inl ZeroDivisionError"
  by (rule markov_setup_fails) (rule build_transition_matrix_zero_row [OF assms])

text \<open>C7 at two states, where the second row is the one drawn as zeros.\<close>

theorem markov_zero_row_raises_witness:
  "fst (markov 0 5 0 2 zero_world) = Inl ZeroDivisionError"
proof -
  have h: "\<forall>j<nat 2. tape zero_world (drawn zero_world + nat 1 * nat 2 + j) mod 2 ^ 53 = 0"
    by (simp add: zero_world_def)
  from markov_zero_row_raises [of 1 2 zero_world 0 5 0, OF _ _ h] show ?thesis by simp
qed

subsection \<open>C9: the division operators\<close>

text \<open>
  Claim C9: the pool entries labelled \<^verbatim>\<open>x // y\<close> and \<^verbatim>\<open>y // x\<close> never raise on a zero
  divisor. For all integers, the only pool entry with the label \<^verbatim>\<open>x // y\<close> returns the
  floor quotient of \<open>x\<close> by \<open>y\<close>, with \<open>1\<close> in place of a zero \<open>y\<close>, and the only entry
  labelled \<^verbatim>\<open>y // x\<close> does the same with the arguments exchanged; in particular a zero
  divisor gives back the dividend.
\<close>

theorem division_operators_total:
  "map (\<lambda>(f, l). f x y) (filter (\<lambda>(f, l). l = ''x // y'') operation_pool)
     = [Inr (x div (if y = 0 then 1 else y))] \<and>
   map (\<lambda>(f, l). f x y) (filter (\<lambda>(f, l). l = ''y // x'') operation_pool)
     = [Inr (y div (if x = 0 then 1 else x))] \<and>
   map (\<lambda>(f, l). f x 0) (filter (\<lambda>(f, l). l = ''x // y'') operation_pool) = [Inr x] \<and>
   map (\<lambda>(f, l). f 0 y) (filter (\<lambda>(f, l). l = ''y // x'') operation_pool) = [Inr y]"
  by (simp add: operation_pool_def py_floordiv_def)

text \<open>C9 evaluated at \<open>7 // 0\<close>, at \<open>-7 // 0\<close> with the arguments exchanged, and at \<open>-7 // 2\<close>.\<close>

theorem division_operators_total_witness:
  "map (\<lambda>(f, l). f 7 0) (filter (\<lambda>(f, l). l = ''x // y'') operation_pool) = [Inr 7] \<and>
   map (\<lambda>(f, l). f 0 (- 7)) (filter (\<lambda>(f, l). l = ''y // x'') operation_pool) = [Inr (- 7)] \<and>
   map (\<lambda>(f, l). f (- 7) 2) (filter (\<lambda>(f, l). l = ''x // y'') operation_pool) = [Inr (- 4)]"
  using division_operators_total [of 7 0] division_operators_total [of 0 "- 7"]
    division_operators_total [of "- 7" 2]
  by simp

subsection \<open>C8: operator sampling\<close>

text \<open>
  Claim C8 says, among other things, that each synthesized operator carries a distinct
  label. The constant of a synthesized operator is \<^verbatim>\<open>random.randint(1, 5)\<close>, drawn afresh
  each time, so two of them can receive the same constant and then the same label, which
  for the constant \<open>1\<close> is also the label of a catalogue entry. With 18 states and a tape
  of zeros, states 16 and 17 both carry \<^verbatim>\<open>x + y + 1\<close>.
\<close>

theorem synthesized_labels_counterexample:
  "length (selected_names 18 zero_world) = 18 \<and>
   selected_names 18 zero_world ! 16 = ''x + y + 1'' \<and>
   selected_names 18 zero_world ! 17 = ''x + y + 1'' \<and>
   \<not> distinct (selected_names 18 zero_world)"
proof -
  from select_operations_result [of 18 zero_world] obtain sel where
    run: "select_operations 18 zero_world =
           (Inr (map fst sel @ map (\<lambda>c x y. Inr (x + y + c))
                   (extra_constants (zero_world\<lparr>drawn := drawn zero_world + 16\<rparr>) (nat (18 - 16))),
                 map snd sel @ map (\<lambda>c. ''x + y + '' @ str c)
                   (extra_constants (zero_world\<lparr>drawn := drawn zero_world + 16\<rparr>) (nat (18 - 16)))),
            zero_world\<lparr>drawn := drawn zero_world + nat 18\<rparr>)"
    and len: "length sel = min (nat 18) 16"
    by auto
  have cs: "extra_constants (zero_world\<lparr>drawn := drawn zero_world + 16\<rparr>) 2 = [1, 1]"
    by (simp add: extra_constants_def zero_world_def upt_conv_Cons)
  have names: "selected_names 18 zero_world = map snd sel @ [''x + y + 1'', ''x + y + 1'']"
    by (simp add: selected_names_def run cs str_digit)
  have len': "length (map snd sel) = 16" using len by simp
  have a: "selected_names 18 zero_world ! 16 = ''x + y + 1''"
    unfolding names using len' by (simp add: nth_append)
  have b: "selected_names 18 zero_world ! 17 = ''x + y + 1''"
    unfolding names using len' by (simp add: nth_append)
  have c: "length (selected_names 18 zero_world) = 18"
    unfolding names using len' by simp
  have "\<not> distinct (selected_names 18 zero_world)"
    unfolding names by simp
  with a b c show ?thesis by blast
qed

text \<open>
  C8 as amended: for every \<open>num_states \<ge> 0\<close>, operator sampling returns exactly
  \<open>num_states\<close> operators and as many labels, in state order. The first
  \<open>min num_states 16\<close> are entries of the catalogue with pairwise distinct labels (drawn
  without repetition). Every further one is \<open>x + y + c\<close> with a constant \<open>c\<close> between 1 and
  5 and carries the label \<^verbatim>\<open>x + y + c\<close> built from that constant; nothing is said about
  these labels being distinct.
\<close>

theorem select_operations_sample:
  assumes "0 \<le> num_states"
  shows "\<exists>fm names w'. select_operations num_states w = (Inr (fm, names), w') \<and>
     length fm = nat num_states \<and> length names = nat num_states \<and>
     distinct (take 16 names) \<and>
     set (zip (take 16 fm) (take 16 names)) \<subseteq> set operation_pool \<and>
     (\<forall>k. 16 \<le> k \<and> k < nat num_states \<longrightarrow>
        (\<exists>c. 1 \<le> c \<and> c \<le> 5 \<and> fm ! k = (\<lambda>x y. Inr (x + y + c)) \<and>
             names ! k = ''x + y + '' @ str c))"
proof -
  define cs where "cs = extra_constants (w\<lparr>drawn := drawn w + 16\<rparr>) (nat (num_states - 16))"
  define fm where "fm sel = map fst sel @ map (\<lambda>c x y. Inr (x + y + c)) cs" for sel :: "(operator \<times> string) list"
  define names where "names sel = map snd sel @ map (\<lambda>c. ''x + y + '' @ str c) cs" for sel :: "(operator \<times> string) list"
  from select_operations_result [OF assms, of w] obtain sel where
    run: "select_operations num_states w = (Inr (fm sel, names sel), w\<lparr>drawn := drawn w + nat num_states\<rparr>)"
    and len: "length sel = min (nat num_states) 16"
    and sub: "set sel \<subseteq> set operation_pool" and dis: "distinct (map snd sel)"
    unfolding fm_def names_def cs_def by blast
  have lcs: "length cs = nat (num_states - 16)"
    by (simp add: cs_def extra_constants_def)
  have short: "cs = []" if "num_states \<le> 16"
    using that lcs by simp
  have full: "length sel = 16" if "16 < num_states"
    using that len by simp
  have l1: "length (fm sel) = nat num_states" "length (names sel) = nat num_states"
    using len lcs assms by (auto simp: fm_def names_def min_def)
  have t1: "take 16 (names sel) = map snd sel" and t2: "take 16 (fm sel) = map fst sel"
    using len short full by (cases "num_states \<le> 16"; simp add: fm_def names_def)+
  have d: "distinct (take 16 (names sel))"
    using dis by (simp add: t1)
  have z: "set (zip (take 16 (fm sel)) (take 16 (names sel))) \<subseteq> set operation_pool"
    using sub by (simp add: t1 t2 zip_map_fst_snd)
  have e: "\<exists>c. 1 \<le> c \<and> c \<le> 5 \<and> fm sel ! k = (\<lambda>x y. Inr (x + y + c)) \<and>
             names sel ! k = ''x + y + '' @ str c"
    if "16 \<le> k \<and> k < nat num_states" for k
  proof -
    from that have big: "16 < num_states" by linarith
    then have ls: "length sel = 16" by (rule full)
    have kc: "k - 16 < length cs" using that lcs big by linarith
    then have "cs ! (k - 16) \<in> set cs" by simp
    then have rng: "1 \<le> cs ! (k - 16) \<and> cs ! (k - 16) \<le> 5"
      unfolding cs_def by (rule extra_constants_range)
    have "fm sel ! k = (\<lambda>x y. Inr (x + y + cs ! (k - 16)))"
      using that ls kc by (simp add: fm_def nth_append)
    moreover have "names sel ! k = ''x + y + '' @ str (cs ! (k - 16))"
      using that ls kc by (simp add: names_def nth_append)
    ultimately show ?thesis using rng by blast
  qed
  from run l1 d z e show ?thesis by blast
qed

text \<open>The amended C8 at 18 states, read at the last state.\<close>

theorem select_operations_sample_witness:
  "\<exists>fm names w'. select_operations 18 zero_world = (Inr (fm, names), w') \<and>
     length fm = 18 \<and> length names = 18 \<and> distinct (take 16 names) \<and>
     set (zip (take 16 fm) (take 16 names)) \<subseteq> set operation_pool \<and>
     (\<exists>c. 1 \<le> c \<and> c \<le> 5 \<and> fm ! 17 = (\<lambda>x y. Inr (x + y + c)) \<and>
          names ! 17 = ''x + y + '' @ str c)"
proof -
  from select_operations_sample [of 18 zero_world] obtain fm names w' where
    run: "select_operations 18 zero_world = (Inr (fm, names), w')"
    and rest: "length fm = nat 18" "length names = nat 18" "distinct (take 16 names)"
      "set (zip (take 16 fm) (take 16 names)) \<subseteq> set operation_pool"
    and extra: "\<forall>k. 16 \<le> k \<and> k < nat 18 \<longrightarrow>
        (\<exists>c. 1 \<le> c \<and> c \<le> 5 \<and> fm ! k = (\<lambda>x y. Inr (x + y + c)) \<and>
             names ! k = ''x + y + '' @ str c)"
    by auto
  from extra have "\<exists>c. 1 \<le> c \<and> c \<le> 5 \<and> fm ! 17 = (\<lambda>x y. Inr (x + y + c)) \<and>
          names ! 17 = ''x + y + '' @ str c"
    by simp
  with run rest show ?thesis by auto
qed

subsection \<open>C1: the length of the returned sequence\<close>

text \<open>
  Claim C1 says that \<^verbatim>\<open>steps\<close> is the total length of the returned sequence, seeds
  included. The loop is \<^verbatim>\<open>for step in range(1, steps)\<close> and appends one value per
  iteration, so it appends \<open>steps - 1\<close> values to the copied seeds. With the seeds
  \<open>[2, 3]\<close> and \<open>steps = 5\<close> the result has six elements, not five.
\<close>

theorem steps_total_length_counterexample:
  "fst (markov 0 5 0 1 fib_world) = Inr 1 \<and>
   heap (snd (markov 0 5 0 1 fib_world)) ! 1 = [2, 3, 5, 8, 13, 21] \<and>
   length (heap (snd (markov 0 5 0 1 fib_world)) ! 1) = 6"
  using markov_fib [OF fib_world_facts, of 0] by (simp add: fib_world_def)

text \<open>
  C1 as amended: whenever \<^verbatim>\<open>markov\<close> returns, the returned sequence consists of the
  elements of \<^verbatim>\<open>initial_values\<close> followed by the values appended by the recurrence loop,
  one for each index of \<^verbatim>\<open>range(1, steps)\<close>. Its length is therefore the length of
  \<^verbatim>\<open>initial_values\<close> plus \<open>steps - 1\<close>, or plus zero when \<open>steps \<le> 1\<close>; with two
  seeds and \<open>steps \<ge> 1\<close> that is \<open>steps + 1\<close>.
\<close>

theorem markov_length:
  assumes "markov initial_values steps initial_state num_states w = (Inr sequence, w')"
    and "initial_values < length (heap w)"
  shows "\<exists>appended. heap w' ! sequence = heap w ! initial_values @ appended \<and>
           length appended = nat (steps - 1) \<and>
           length (heap w' ! sequence) = length (heap w ! initial_values) + nat (steps - 1)"
proof -
  obtain rb w1 where b0: "build_transition_matrix num_states w = (rb, w1)"
    by (cases "build_transition_matrix num_states w")
  obtain tm where tm: "rb = Inr tm"
  proof (cases rb)
    case (Inl e)
    with markov_build_raises [of num_states w e w1] b0 assms(1) show ?thesis by simp
  next
    case (Inr tm)
    then show ?thesis by (rule that)
  qed
  note b = b0 [unfolded tm]
  obtain rs w2 where s0: "select_operations num_states w1 = (rs, w2)"
    by (cases "select_operations num_states w1")
  obtain fm names where p: "rs = Inr (fm, names)"
  proof (cases rs)
    case (Inl e)
    with markov_select_raises [OF b, of e w2] s0 assms(1) show ?thesis by simp
  next
    case (Inr q)
    then show ?thesis by (cases q) (auto intro: that)
  qed
  note s = s0 [unfolded p]
  from setup_result [OF b s] have h: "heap w2 = heap w" by simp
  define w3 where "w3 = w2\<lparr>heap := heap w2 @ [heap w2 ! initial_values]\<rparr>"
  obtain rl w4 where loop0: "for_each (py_range 1 steps) (markov_step (length (heap w2)))
      (MarkovChain_init tm fm names initial_state) w3 = (rl, w4)"
    by (cases "for_each (py_range 1 steps) (markov_step (length (heap w2)))
      (MarkovChain_init tm fm names initial_state) w3")
  from markov_unfold [OF b s, of initial_values steps initial_state] loop0 assms(1)
  obtain mc' where rl: "rl = Inr mc'" and res: "sequence = length (heap w2)" "w' = w4"
    by (cases rl) (auto simp: w3_def [symmetric])
  have l: "length (heap w2) < length (heap w3)" by (simp add: w3_def)
  from markov_loop_appends [OF loop0 [unfolded rl] l] obtain vs where
    vs: "heap w4 ! length (heap w2) = heap w3 ! length (heap w2) @ vs"
      "length vs = length (py_range 1 steps)" by blast
  have "heap w3 ! length (heap w2) = heap w ! initial_values"
    by (simp add: w3_def h)
  with vs res have "heap w' ! sequence = heap w ! initial_values @ vs \<and>
      length vs = nat (steps - 1)"
    by (simp add: length_py_range)
  then show ?thesis by auto
qed

text \<open>The amended C1 for the seeds \<open>[2, 3]\<close>, five steps and one state.\<close>

theorem markov_length_witness:
  "\<exists>appended. heap (snd (markov 0 5 0 1 fib_world)) ! 1 = [2, 3] @ appended \<and>
     length appended = 4 \<and> length (heap (snd (markov 0 5 0 1 fib_world)) ! 1) = 6"
proof -
  have run: "markov 0 5 0 1 fib_world =
      (Inr 1, fib_world\<lparr>heap := heap fib_world @ [[2, 3, 5, 8, 13, 21]],
                       drawn := drawn fib_world + 6\<rparr>)"
    using markov_fib [OF fib_world_facts, of 0] by (simp add: fib_world_def)
  from markov_length [OF run fib_world_facts(1)] show ?thesis
    by (simp add: run) (simp add: fib_world_def)
qed

subsection \<open>C2: the order of the operands\<close>

text \<open>
  Claim C2: in every recurrence step that completes, the operator looked up at the current
  state is applied to the last element of the sequence as first argument and to the one
  before it as second argument, and its result is what the step appends.
\<close>

theorem markov_step_operand_order:
  assumes "markov_step sequence step mc w = (Inr mc', w')"
    and "sequence < length (heap w)"
  shows "\<exists>f v. py_index (functions_matrix mc) (state mc) = Inr f \<and>
           2 \<le> length (heap w ! sequence) \<and>
           f (last (heap w ! sequence))
             (heap w ! sequence ! (length (heap w ! sequence) - 2)) = Inr v \<and>
           heap w' ! sequence = heap w ! sequence @ [v]"
proof -
  from markov_step_cases [OF assms(1)] obtain f a b v where
    f: "py_index (functions_matrix mc) (state mc) = Inr f"
    and a: "py_index (heap w ! sequence) (- 1) = Inr a"
    and b: "py_index (heap w ! sequence) (- 2) = Inr b"
    and v: "f a b = Inr v"
    and h: "heap w' = (heap w)[sequence := heap w ! sequence @ [v]]"
    by auto
  from py_index_minus1 [OF a] have a': "a = last (heap w ! sequence)" by simp
  from py_index_minus2 [OF b] have b': "2 \<le> length (heap w ! sequence)"
    "b = heap w ! sequence ! (length (heap w ! sequence) - 2)" by simp_all
  from h assms(2) have "heap w' ! sequence = heap w ! sequence @ [v]" by simp
  with f v a' b' show ?thesis by blast
qed

text \<open>
  C2 with the subtraction of the pool on the sequence \<open>[2, 5]\<close>: the step appends
  \<open>5 - 2 = 3\<close>, not \<open>2 - 5\<close>.
\<close>

theorem markov_step_operand_order_witness:
  "heap (snd (markov_step 0 1 sub_chain sub_world)) ! 0 = [2, 5, 3]"
proof -
  have t: "transition_matrix sub_chain = [[1]]" "functions_matrix sub_chain = [\<lambda>x y. Inr (x - y)]"
    "function_names sub_chain = [''x - y'']" "state sub_chain = 0 \<or> state sub_chain = - 1"
    by (simp_all add: sub_chain_def MarkovChain_init_def)
  have l: "(0::nat) < length (heap sub_world)" by (simp add: sub_world_def)
  have a: "py_index (heap sub_world ! 0) (- 1) = Inr 5"
    and b: "py_index (heap sub_world ! 0) (- 2) = Inr 2"
    by (simp_all add: sub_world_def py_index_def)
  from step_line_small [of 1 "sub_chain\<lparr>state := 0\<rparr>" 5 3 "''x - y''"]
  obtain line where "step_line 1 (sub_chain\<lparr>state := 0\<rparr>) ''x - y'' [5, 3] = Inr line"
    by auto
  then have p: "step_line 1 (sub_chain\<lparr>state := 0\<rparr>) ''x - y''
      (py_slice_from (heap sub_world ! 0 @ [3]) (- 2)) = Inr line"
    by (simp add: sub_world_def py_slice_from_def)
  have run: "markov_step 0 1 sub_chain sub_world =
      (Inr (sub_chain\<lparr>state := 0\<rparr>),
       sub_world\<lparr>heap := (heap sub_world)[0 := heap sub_world ! 0 @ [3]],
                 drawn := Suc (drawn sub_world)\<rparr>)"
    by (rule single_state_step [OF t l a b _ p]) simp
  from markov_step_operand_order [OF run l] obtain f v where
    f: "py_index (functions_matrix sub_chain) (state sub_chain) = Inr f"
    and v: "f (last (heap sub_world ! 0))
             (heap sub_world ! 0 ! (length (heap sub_world ! 0) - 2)) = Inr v"
    and h: "heap (sub_world\<lparr>heap := (heap sub_world)[0 := heap sub_world ! 0 @ [3]],
                 drawn := Suc (drawn sub_world)\<rparr>) ! 0 = heap sub_world ! 0 @ [v]"
    by blast
  from f have "f = (\<lambda>x y. Inr (x - y))"
    by (simp add: sub_chain_def MarkovChain_init_def py_index_def)
  with v have "v = 3" by (simp add: sub_world_def)
  with h run show ?thesis by (simp add: sub_world_def)
qed

subsection \<open>C4: the addition example\<close>

text \<open>
  Claim C4: with the seeds \<open>[2, 3]\<close>, one state, \<open>steps = 5\<close> and the operator \<^verbatim>\<open>x + y\<close>,
  \<^verbatim>\<open>markov\<close> returns \<open>[2, 3, 5, 8, 13, 21]\<close>. The hypotheses on the tape say that the one
  matrix entry drawn is not zero and that the sampling draw picks entry 0 of the
  catalogue, which is \<^verbatim>\<open>x + y\<close>; the draws of the four transitions are arbitrary.
\<close>

theorem markov_fibonacci_example:
  assumes "initial_values < length (heap w)" "heap w ! initial_values = [2, 3]"
    and "tape w (drawn w) mod 2 ^ 53 \<noteq> 0" "tape w (Suc (drawn w)) mod 16 = 0"
  shows "selected_names 1 (w\<lparr>drawn := Suc (drawn w)\<rparr>) = [''x + y''] \<and>
         (\<exists>sequence w'. markov initial_values 5 0 1 w = (Inr sequence, w') \<and>
            heap w' ! sequence = [2, 3, 5, 8, 13, 21])"
proof -
  have "selected_names 1 (w\<lparr>drawn := Suc (drawn w)\<rparr>) = [''x + y'']"
    using assms(4) by (simp add: selected_names_def select_one operation_pool_def)
  moreover from markov_fib [OF assms, of 0]
  have "\<exists>sequence w'. markov initial_values 5 0 1 w = (Inr sequence, w') \<and>
            heap w' ! sequence = [2, 3, 5, 8, 13, 21]"
    by simp
  ultimately show ?thesis by blast
qed

text \<open>C4 on a tape that holds 16 in every cell.\<close>

theorem markov_fibonacci_example_witness:
  "selected_names 1 (fib_world\<lparr>drawn := Suc (drawn fib_world)\<rparr>) = [''x + y''] \<and>
   (\<exists>sequence w'. markov 0 5 0 1 fib_world = (Inr sequence, w') \<and>
      heap w' ! sequence = [2, 3, 5, 8, 13, 21])"
  by (rule markov_fibonacci_example [OF fib_world_facts])

subsection \<open>C10: the caller's list\<close>

text \<open>
  Claim C10: \<^verbatim>\<open>markov\<close> does not change the list object \<^verbatim>\<open>initial_values\<close>. Whether the call
  returns or raises, that object holds the same elements afterwards, and the reference
  returned is never the caller's.
\<close>

theorem markov_keeps_initial_values:
  assumes "initial_values < length (heap w)"
  shows "heap (snd (markov initial_values steps initial_state num_states w)) ! initial_values
           = heap w ! initial_values \<and>
         fst (markov initial_values steps initial_state num_states w) \<noteq> Inr initial_values"
  using markov_heap_frame [OF _ assms, of initial_values steps initial_state num_states
      "fst (markov initial_values steps initial_state num_states w)"
      "snd (markov initial_values steps initial_state num_states w)"]
  by simp

text \<open>C10 for the call at the end of the module: 100 steps and 10 states.\<close>

theorem markov_keeps_initial_values_witness:
  "heap (snd (markov 0 100 0 10 fib_world)) ! 0 = [2, 3] \<and>
   fst (markov 0 100 0 10 fib_world) \<noteq> Inr 0"
  using markov_keeps_initial_values [of 0 fib_world 100 0 10] by (simp add: fib_world_def)

subsection \<open>C5: fewer than two seeds\<close>

text \<open>
  Claim C5 says that a call with fewer than two initial values fails at once with
  \<^verbatim>\<open>InsufficientSeedError\<close>, before any randomness is consumed. The code checks nothing
  about the seeds. With the single seed \<open>[5]\<close> and \<open>steps = 1\<close> the call returns a copy of
  the seeds; with \<open>steps = 3\<close> it raises \<^verbatim>\<open>IndexError\<close>, after two draws have been read.
\<close>

theorem seed_check_counterexample:
  "fst (markov 0 1 0 1 single_world) = Inr 1 \<and>
   heap (snd (markov 0 1 0 1 single_world)) ! 1 = [5] \<and>
   fst (markov 0 3 0 1 single_world) = Inl IndexError \<and>
   drawn single_world = 0 \<and>
   drawn (snd (markov 0 3 0 1 single_world)) = 2"
proof -
  from setup_one [OF single_world_facts(1)] obtain fm names where
    b: "build_transition_matrix 1 single_world =
          (Inr [[1]], single_world\<lparr>drawn := Suc (drawn single_world)\<rparr>)"
    and s: "select_operations 1 (single_world\<lparr>drawn := Suc (drawn single_world)\<rparr>) =
          (Inr (fm, names), single_world\<lparr>drawn := drawn single_world + 2\<rparr>)"
    by blast
  from markov_no_steps [OF b s, of 1 0 0]
    markov_short_seed_steps [OF single_world_facts(2) b s, of 3 0]
  show ?thesis by (simp add: single_world_def)
qed

text \<open>
  C5 as amended: with fewer than two initial values, \<^verbatim>\<open>markov\<close> first builds the matrix
  and samples the operators, which reads one draw for each matrix entry and one for each
  operator. If that
  succeeds, then for \<open>steps \<le> 1\<close> the call returns a copy of the seeds, and for
  \<open>steps \<ge> 2\<close> the first recurrence step raises \<^verbatim>\<open>IndexError\<close> with nothing appended to
  the copy.
\<close>

theorem markov_short_seed:
  assumes "length (heap w ! initial_values) < 2"
    and "build_transition_matrix num_states w = (Inr tm, w1)"
    and "select_operations num_states w1 = (Inr (fm, names), w2)"
  shows "drawn w2 = drawn w + nat num_states * nat num_states + nat num_states \<and>
         (if steps \<le> 1
          then markov initial_values steps initial_state num_states w =
                 (Inr (length (heap w)), w2\<lparr>heap := heap w @ [heap w ! initial_values]\<rparr>)
          else markov initial_values steps initial_state num_states w =
                 (Inl IndexError, w2\<lparr>heap := heap w @ [heap w ! initial_values]\<rparr>))"
proof -
  from setup_result [OF assms(2,3)]
  have d: "drawn w2 = drawn w + nat num_states * nat num_states + nat num_states" by simp
  show ?thesis
  proof (cases "steps \<le> 1")
    case True
    with markov_no_steps [OF assms(2,3) True] d show ?thesis by simp
  next
    case False
    then have "2 \<le> steps" by simp
    from markov_short_seed_steps [OF assms this] False d show ?thesis by simp
  qed
qed

text \<open>The amended C5 for the single seed \<open>[5]\<close>, three steps and one state.\<close>

theorem markov_short_seed_witness:
  "fst (markov 0 3 0 1 single_world) = Inl IndexError \<and>
   heap (snd (markov 0 3 0 1 single_world)) = [[5], [5]] \<and>
   drawn (snd (markov 0 3 0 1 single_world)) = drawn single_world + 2"
proof -
  from setup_one [OF single_world_facts(1)] obtain fm names where
    b: "build_transition_matrix 1 single_world =
          (Inr [[1]], single_world\<lparr>drawn := Suc (drawn single_world)\<rparr>)"
    and s: "select_operations 1 (single_world\<lparr>drawn := Suc (drawn single_world)\<rparr>) =
          (Inr (fm, names), single_world\<lparr>drawn := drawn single_world + 2\<rparr>)"
    by blast
  from markov_short_seed [OF single_world_facts(2) b s, of 3 0]
  show ?thesis by (simp add: single_world_def)
qed

subsection \<open>C6: an initial state out of range\<close>

text \<open>
  Claim C6 says that an initial state outside \<open>0 \<le> initial_state < num_states\<close> makes the
  call fail with \<^verbatim>\<open>InvalidStateError\<close>. The code does not check the state. With one state,
  the initial state 7 and \<open>steps = 1\<close> return the copied seeds, and the initial state
  \<open>-1\<close>, which subscripts from the end, runs all five steps.
\<close>

theorem state_check_counterexample:
  "fst (markov 0 1 7 1 fib_world) = Inr 1 \<and>
   heap (snd (markov 0 1 7 1 fib_world)) ! 1 = [2, 3] \<and>
   fst (markov 0 5 (- 1) 1 fib_world) = Inr 1 \<and>
   heap (snd (markov 0 5 (- 1) 1 fib_world)) ! 1 = [2, 3, 5, 8, 13, 21]"
proof -
  from setup_one [OF fib_world_facts(3)] obtain fm names where
    b: "build_transition_matrix 1 fib_world =
          (Inr [[1]], fib_world\<lparr>drawn := Suc (drawn fib_world)\<rparr>)"
    and s: "select_operations 1 (fib_world\<lparr>drawn := Suc (drawn fib_world)\<rparr>) =
          (Inr (fm, names), fib_world\<lparr>drawn := drawn fib_world + 2\<rparr>)"
    by blast
  from markov_no_steps [OF b s, of 1 0 7] markov_fib [OF fib_world_facts, of "- 1"]
  show ?thesis by (simp add: fib_world_def)
qed

text \<open>
  C6 as amended: if the matrix and the operators were built and the initial state
  satisfies \<open>initial_state \<ge> num_states\<close> or \<open>initial_state < - num_states\<close>, then for
  \<open>steps \<ge> 2\<close> the first recurrence step raises \<^verbatim>\<open>IndexError\<close>, after the seeds were copied
  and before anything is appended, and for \<open>steps \<le> 1\<close> the call returns the copied seeds.
\<close>

theorem markov_bad_initial_state:
  assumes "num_states \<le> initial_state \<or> initial_state < - num_states"
    and "build_transition_matrix num_states w = (Inr tm, w1)"
    and "select_operations num_states w1 = (Inr (fm, names), w2)"
  shows "if steps \<le> 1
         then markov initial_values steps initial_state num_states w =
                (Inr (length (heap w)), w2\<lparr>heap := heap w @ [heap w ! initial_values]\<rparr>)
         else markov initial_values steps initial_state num_states w =
                (Inl IndexError, w2\<lparr>heap := heap w @ [heap w ! initial_values]\<rparr>)"
proof (cases "steps \<le> 1")
  case True
  with markov_no_steps [OF assms(2,3) True] show ?thesis by simp
next
  case False
  then have two: "2 \<le> steps" by simp
  from setup_result [OF assms(2,3)] have n: "0 \<le> num_states" and l: "length fm = nat num_states"
    by simp_all
  define mc where "mc = MarkovChain_init tm fm names initial_state"
  have "int (length (functions_matrix mc)) \<le> state mc \<or>
        state mc < - int (length (functions_matrix mc))"
    using assms(1) n l by (simp add: mc_def MarkovChain_init_def)
  then have "markov_step (length (heap w)) 1 mc (w2\<lparr>heap := heap w @ [heap w ! initial_values]\<rparr>) =
      (Inl IndexError, w2\<lparr>heap := heap w @ [heap w ! initial_values]\<rparr>)"
    by (rule markov_step_bad_state)
  from markov_first_step_raises [OF assms(2,3) two this [unfolded mc_def]] False
  show ?thesis by simp
qed

text \<open>The amended C6 for the initial state 7 with one state and five steps.\<close>

theorem markov_bad_initial_state_witness:
  "fst (markov 0 5 7 1 fib_world) = Inl IndexError \<and>
   heap (snd (markov 0 5 7 1 fib_world)) = [[2, 3], [2, 3]]"
proof -
  from setup_one [OF fib_world_facts(3)] obtain fm names where
    b: "build_transition_matrix 1 fib_world =
          (Inr [[1]], fib_world\<lparr>drawn := Suc (drawn fib_world)\<rparr>)"
    and s: "select_operations 1 (fib_world\<lparr>drawn := Suc (drawn fib_world)\<rparr>) =
          (Inr (fm, names), fib_world\<lparr>drawn := drawn fib_world + 2\<rparr>)"
    by blast
  from markov_bad_initial_state [OF _ b s, of 7 5 0]
  show ?thesis by (simp add: fib_world_def)
qed

end
